theory Spec2Isabelle
  imports Complex_Main
begin

section \<open>Profile tables and derived types\<close>

text \<open>
  The selectors of \<^verbatim>\<open>src/selectors/per-thread/stack-sample.js\<close> read a thread's tables.
  The type declarations (\<^verbatim>\<open>types/profile\<close>, \<^verbatim>\<open>types/profile-derived\<close>) are not part
  of the sources at hand; the records below hold the fields the selectors read, with the
  shapes the data model of the specification gives them. JavaScript numbers that measure
  time or weight are idealised as reals, indexes are naturals, a nullable value is an
  \<open>option\<close>.
\<close>

type_synonym milliseconds = real

record samplesTable =
  stack :: "nat option list"
  time :: "milliseconds list"

record jsAllocationsTable =
  time :: "milliseconds list"
  weight :: "real list"
  stack :: "nat option list"

record nativeAllocationsTable =
  time :: "milliseconds list"
  weight :: "real list"
  stack :: "nat option list"
  memoryAddress :: "nat list option"

record stackEntry =
  frameIndex :: nat
  parentStackIndex :: "nat option"

record frame =
  funcIndex :: nat
  categoryIndex :: nat

record func =
  name :: string
  origin :: string

record thread =
  samples :: samplesTable
  jsAllocations :: "jsAllocationsTable option"
  nativeAllocations :: "nativeAllocationsTable option"
  isJsTracer :: bool
  stackTable :: "stackEntry list"
  frameTable :: "frame list"
  funcTable :: "func list"

record callNode =
  funcIndex :: nat
  categoryIndex :: nat
  depth :: nat
  parentCallNodeIndex :: "nat option"

record callNodeInfo =
  callNodeTable :: "callNode list"
  stackIndexToCallNodeIndex :: "nat option list"

type_synonym callNodePath = "nat list"

datatype selectedState = Selected | UnselectedBefore | UnselectedAfter | FilteredOutByTab

record startEndRange =
  rangeStart :: milliseconds
  rangeEnd :: milliseconds

record viewOptions =
  selectedCallNodePath :: callNodePath
  rightClickedCallNodePath :: "callNodePath option"
  expandedCallNodePaths :: "callNodePath list"

text \<open>
  What a selector can throw: \<open>Error msg\<close> is JavaScript's \<^verbatim>\<open>new Error(msg)\<close>;
  \<open>UnhandledCase v msg\<close> is the failure of \<^verbatim>\<open>assertExhaustiveCheck(v, msg)\<close>.
\<close>

datatype error = Error string | UnhandledCase string "string option"

text \<open>The value \<^verbatim>\<open>getSamplesForCallTree\<close> returns: one of the three table types.\<close>

datatype samplesLike =
    Samples samplesTable
  | JsAllocations jsAllocationsTable
  | NativeAllocations nativeAllocationsTable

text \<open>
  The ambient state, as far as these selectors read it: the values of the upstream
  selectors (\<^verbatim>\<open>threadSelectors\<close>, \<^verbatim>\<open>ProfileSelectors\<close>, \<^verbatim>\<open>UrlState\<close>).
\<close>

record state =
  getThread :: thread
  getFilteredThread :: thread
  getPreviewFilteredThread :: thread
  getTabFilteredThread :: thread
  getProfileInterval :: milliseconds
  getDefaultCategory :: nat
  getViewOptions :: viewOptions
  getLastSelectedCallTreeSummaryStrategy :: string
  getInvertCallstack :: bool

text \<open>
  The functions of \<^verbatim>\<open>profile-logic/profile-data\<close> that the selectors call and that no
  claim below depends on are parameters of the model: the four allocation filters, the
  sample-to-call-node map and the sample classifier. Each may fail.
\<close>

record profileData =
  filterToAllocations :: "nativeAllocationsTable \<Rightarrow> error + nativeAllocationsTable"
  filterToRetainedAllocations :: "nativeAllocationsTable \<Rightarrow> error + nativeAllocationsTable"
  filterToDeallocationsSites :: "nativeAllocationsTable \<Rightarrow> error + nativeAllocationsTable"
  filterToDeallocationsMemory :: "nativeAllocationsTable \<Rightarrow> error + nativeAllocationsTable"
  getSampleIndexToCallNodeIndex :: "nat option list \<Rightarrow> nat option list \<Rightarrow> error + nat option list"
  getSamplesSelectedStates ::
    "callNode list \<Rightarrow> nat option list \<Rightarrow> nat option list \<Rightarrow> nat option \<Rightarrow> error + selectedState list"

section \<open>Helpers of \<^verbatim>\<open>utils/flow\<close>\<close>

text \<open>
  Modelled from the spec: \<^verbatim>\<open>utils/flow\<close> is not among the sources. \<^verbatim>\<open>ensureExists\<close>
  hands back a value that is there and fails with the given message when it is absent
  (section 7, CapabilityMissing: a table the thread lacks fails hard).
\<close>

definition ensureExists :: "'a option \<Rightarrow> string \<Rightarrow> error + 'a" where
  "ensureExists item message = (case item of None \<Rightarrow> Inl (Error message) | Some v \<Rightarrow> Inr v)"

text \<open>
  Modelled from the spec: \<^verbatim>\<open>assertExhaustiveCheck\<close> always fails (section 7, VariantDrift:
  an unhandled variant is a fatal, immediately surfaced error).
\<close>

definition assertExhaustiveCheck :: "string \<Rightarrow> string option \<Rightarrow> error + 'a" where
  "assertExhaustiveCheck notValid errorMessage = Inl (UnhandledCase notValid errorMessage)"

section \<open>Selectors over the raw thread\<close>

text \<open>\<^verbatim>\<open>unfilteredSamplesRange\<close>, lines 55-65.\<close>

definition unfilteredSamplesRange_compute :: "thread \<Rightarrow> milliseconds \<Rightarrow> startEndRange option" where
  "unfilteredSamplesRange_compute thread interval =
     (let time = samplesTable.time (samples thread) in
      if length time = 0 then None
      else Some \<lparr> rangeStart = time ! 0, rangeEnd = time ! (length time - 1) + interval \<rparr>)"

definition unfilteredSamplesRange :: "state \<Rightarrow> startEndRange option" where
  "unfilteredSamplesRange s = unfilteredSamplesRange_compute (getThread s) (getProfileInterval s)"

text \<open>
  \<^verbatim>\<open>getCallTreeSummaryStrategy\<close>, lines 194-226. The strategy is the string the URL state
  holds; the \<^verbatim>\<open>switch\<close> compares it with the six literals in the order of the source.
\<close>

definition getCallTreeSummaryStrategy_compute :: "thread \<Rightarrow> string \<Rightarrow> error + string" where
  "getCallTreeSummaryStrategy_compute thread lastSelectedCallTreeSummaryStrategy =
     (if lastSelectedCallTreeSummaryStrategy = ''timing'' then
        Inr lastSelectedCallTreeSummaryStrategy
      else if lastSelectedCallTreeSummaryStrategy = ''js-allocations'' then
        (if jsAllocations thread = None then Inr ''timing''
         else Inr lastSelectedCallTreeSummaryStrategy)
      else if lastSelectedCallTreeSummaryStrategy = ''native-allocations''
            \<or> lastSelectedCallTreeSummaryStrategy = ''native-retained-allocations''
            \<or> lastSelectedCallTreeSummaryStrategy = ''native-deallocations-sites''
            \<or> lastSelectedCallTreeSummaryStrategy = ''native-deallocations-memory'' then
        (if nativeAllocations thread = None then Inr ''timing''
         else Inr lastSelectedCallTreeSummaryStrategy)
      else
        (case (assertExhaustiveCheck lastSelectedCallTreeSummaryStrategy
                 (Some ''Unhandled call tree sumary strategy.'') :: error + unit) of
           Inl e \<Rightarrow> Inl e
         | Inr _ \<Rightarrow> Inr lastSelectedCallTreeSummaryStrategy))"

definition getCallTreeSummaryStrategy :: "state \<Rightarrow> error + string" where
  "getCallTreeSummaryStrategy s =
     getCallTreeSummaryStrategy_compute (getThread s) (getLastSelectedCallTreeSummaryStrategy s)"

text \<open>\<^verbatim>\<open>getSamplesForCallTree\<close>, lines 228-292: the cases in the order of the source.\<close>

definition missingMemoryAddresses :: string where
  "missingMemoryAddresses =
     ''Attempting to filter by retained allocations data that is missing the memory addresses.''"

definition getSamplesForCallTree_compute ::
    "profileData \<Rightarrow> thread \<Rightarrow> string \<Rightarrow> error + samplesLike" where
  "getSamplesForCallTree_compute pd thread strategy =
     (if strategy = ''timing'' then Inr (Samples (samples thread))
      else if strategy = ''js-allocations'' then
        map_sum id JsAllocations
          (ensureExists (jsAllocations thread)
             ''Expected the NativeAllocationTable to exist when using a \"js-allocation\" strategy'')
      else if strategy = ''native-retained-allocations'' then
        (case ensureExists (nativeAllocations thread)
                ''Expected the NativeAllocationTable to exist when using a \"native-allocation\" strategy'' of
           Inl e \<Rightarrow> Inl e
         | Inr nativeAllocs \<Rightarrow>
             if memoryAddress nativeAllocs = None then Inl (Error missingMemoryAddresses)
             else map_sum id NativeAllocations (filterToRetainedAllocations pd nativeAllocs))
      else if strategy = ''native-allocations'' then
        (case ensureExists (nativeAllocations thread)
                ''Expected the NativeAllocationTable to exist when using a \"native-allocations\" strategy'' of
           Inl e \<Rightarrow> Inl e
         | Inr nativeAllocs \<Rightarrow>
             map_sum id NativeAllocations (filterToAllocations pd nativeAllocs))
      else if strategy = ''native-deallocations-sites'' then
        (case ensureExists (nativeAllocations thread)
                ''Expected the NativeAllocationTable to exist when using a \"native-deallocations-sites\" strategy'' of
           Inl e \<Rightarrow> Inl e
         | Inr nativeAllocs \<Rightarrow>
             map_sum id NativeAllocations (filterToDeallocationsSites pd nativeAllocs))
      else if strategy = ''native-deallocations-memory'' then
        (case ensureExists (nativeAllocations thread)
                ''Expected the NativeAllocationTable to exist when using a \"native-deallocations-memory\" strategy'' of
           Inl e \<Rightarrow> Inl e
         | Inr nativeAllocs \<Rightarrow>
             if memoryAddress nativeAllocs = None then Inl (Error missingMemoryAddresses)
             else
               (case ensureExists (Some nativeAllocs)
                       ''Expected the NativeAllocationTable to exist when using a \"js-allocation\" strategy'' of
                  Inl e \<Rightarrow> Inl e
                | Inr t \<Rightarrow> map_sum id NativeAllocations (filterToDeallocationsMemory pd t)))
      else assertExhaustiveCheck strategy None)"

definition getSamplesForCallTree :: "profileData \<Rightarrow> state \<Rightarrow> error + samplesLike" where
  "getSamplesForCallTree pd s =
     (case getCallTreeSummaryStrategy s of
        Inl e \<Rightarrow> Inl e
      | Inr strategy \<Rightarrow> getSamplesForCallTree_compute pd (getPreviewFilteredThread s) strategy)"

section \<open>The call-node table builder and the path resolver\<close>

text \<open>The position of the first element that satisfies a predicate.\<close>

fun findIndex :: "('a \<Rightarrow> bool) \<Rightarrow> 'a list \<Rightarrow> nat option" where
  "findIndex P [] = None"
| "findIndex P (x # xs) = (if P x then Some 0 else map_option Suc (findIndex P xs))"

text \<open>
  The call node keyed by \<open>(parentCallNodeIndex, funcIndex)\<close>, if the table has one; the
  parent \<open>None\<close> is the synthetic root.
\<close>

definition findCallNode :: "callNode list \<Rightarrow> nat option \<Rightarrow> nat \<Rightarrow> nat option" where
  "findCallNode tbl parent f =
     findIndex (\<lambda>n. parentCallNodeIndex n = parent \<and> callNode.funcIndex n = f) tbl"

text \<open>
  Modelled from the spec: \<^verbatim>\<open>ProfileData.getCallNodeInfo\<close> (\<^verbatim>\<open>profile-logic/profile-data\<close>)
  is not among the sources. Section 4.2: walk the stacks in table order; for each stack
  look up the call node keyed by (parent call node, function); reuse it if present, else
  allocate a new one with depth = parent depth + 1 and the category seen first; record the
  stack's call node; a stack with no self-frame gets no mapping.

  \<open>addStack\<close> is one step of the walk. The stacks handled so far are exactly the indexes
  below \<open>length (stackIndexToCallNodeIndex info)\<close>. A stack has no self-frame when its
  frame index is outside the frame table. Where the specification is silent (a parent that
  does not precede the stack, or that has no call node itself) the stack gets no mapping.
  The specification names no use of the function table and of the default category.
\<close>

definition parentCallNode :: "nat option list \<Rightarrow> stackEntry \<Rightarrow> nat option option" where
  "parentCallNode idx st =
     (case parentStackIndex st of
        None \<Rightarrow> Some None
      | Some p \<Rightarrow> if p < length idx then map_option Some (idx ! p) else None)"

definition newCallNode :: "callNode list \<Rightarrow> nat option \<Rightarrow> nat \<Rightarrow> nat \<Rightarrow> callNode" where
  "newCallNode tbl parent f category =
     \<lparr> callNode.funcIndex = f, callNode.categoryIndex = category,
       depth = (case parent of None \<Rightarrow> 0 | Some p \<Rightarrow> depth (tbl ! p) + 1),
       parentCallNodeIndex = parent \<rparr>"

definition addStack :: "frame list \<Rightarrow> callNodeInfo \<Rightarrow> stackEntry \<Rightarrow> callNodeInfo" where
  "addStack ft info st =
     (let tbl = callNodeTable info; idx = stackIndexToCallNodeIndex info in
      if frameIndex st < length ft then
        (case parentCallNode idx st of
           None \<Rightarrow> info\<lparr> stackIndexToCallNodeIndex := idx @ [None] \<rparr>
         | Some parent \<Rightarrow>
             let fr = ft ! frameIndex st in
             (case findCallNode tbl parent (frame.funcIndex fr) of
                Some c \<Rightarrow> info\<lparr> stackIndexToCallNodeIndex := idx @ [Some c] \<rparr>
              | None \<Rightarrow>
                  \<lparr> callNodeTable =
                      tbl @ [newCallNode tbl parent (frame.funcIndex fr) (frame.categoryIndex fr)],
                    stackIndexToCallNodeIndex = idx @ [Some (length tbl)] \<rparr>))
      else info\<lparr> stackIndexToCallNodeIndex := idx @ [None] \<rparr>)"

text \<open>
  Modelled from the spec: \<^verbatim>\<open>ProfileData.getCallNodeInfo\<close>, the walk of section 4.2 over
  the stacks in table order, starting with no call node.
\<close>

definition ProfileData_getCallNodeInfo ::
    "stackEntry list \<Rightarrow> frame list \<Rightarrow> func list \<Rightarrow> nat \<Rightarrow> callNodeInfo" where
  "ProfileData_getCallNodeInfo stackTable' frameTable' funcTable' defaultCategory =
     foldl (addStack frameTable')
       \<lparr> callNodeTable = [], stackIndexToCallNodeIndex = [] \<rparr> stackTable'"

text \<open>
  Modelled from the spec: \<^verbatim>\<open>ProfileData.getCallNodeIndexFromPath\<close> is not among the
  sources. Section 4.3: descend from the synthetic root, at each step selecting the child
  keyed by the next function identity; not found if any step fails to match. \<open>None\<close> is
  both "not found" and the synthetic root, which is no call node: JavaScript's \<^verbatim>\<open>null\<close>.
\<close>

fun descend :: "callNode list \<Rightarrow> nat option \<Rightarrow> callNodePath \<Rightarrow> nat option" where
  "descend tbl cur [] = cur"
| "descend tbl cur (f # fs) =
     (case findCallNode tbl cur f of
        None \<Rightarrow> None
      | Some c \<Rightarrow> descend tbl (Some c) fs)"

text \<open>
  Modelled from the spec: \<^verbatim>\<open>ProfileData.getCallNodeIndexFromPath\<close>, the descent of
  section 4.3 from the synthetic root.
\<close>

definition ProfileData_getCallNodeIndexFromPath :: "callNodePath \<Rightarrow> callNode list \<Rightarrow> nat option" where
  "ProfileData_getCallNodeIndexFromPath callNodePath' tbl = descend tbl None callNodePath'"

text \<open>
  Modelled from the spec: \<^verbatim>\<open>ProfileData.getCallNodeIndicesFromPaths\<close>, the batch form of
  section 4.3, resolves each path on its own and keeps the order.
\<close>

definition ProfileData_getCallNodeIndicesFromPaths ::
    "callNodePath list \<Rightarrow> callNode list \<Rightarrow> nat option list" where
  "ProfileData_getCallNodeIndicesFromPaths paths tbl =
     map (\<lambda>p. ProfileData_getCallNodeIndexFromPath p tbl) paths"

text \<open>
  Modelled from the spec: the path of a call node (section 3, Call-Node Path) is the
  sequence of function identities from the root to the node. The parent of a call node
  precedes it in the table, which is what makes the walk end; a parent that does not
  precede its child is not followed.
\<close>

function getCallNodePathFromIndex :: "nat \<Rightarrow> callNode list \<Rightarrow> callNodePath" where
  "getCallNodePathFromIndex n tbl =
     (if n < length tbl then
        (case parentCallNodeIndex (tbl ! n) of
           None \<Rightarrow> []
         | Some p \<Rightarrow> if p < n then getCallNodePathFromIndex p tbl else [])
        @ [callNode.funcIndex (tbl ! n)]
      else [])"
  by pat_completeness auto
termination
  by (relation "measure (\<lambda>(n, tbl). n)") auto

declare getCallNodePathFromIndex.simps [simp del]

text \<open>The paths of all call nodes of a table, in table order.\<close>

definition callNodePaths :: "callNode list \<Rightarrow> callNodePath list" where
  "callNodePaths tbl = map (\<lambda>n. getCallNodePathFromIndex n tbl) [0..<length tbl]"

text \<open>
  The invariants of a call-node table (section 3, Call Node): the parent index precedes the
  child index, and no two call nodes share the same (parent, function) pair.
\<close>

definition callNodeKey :: "callNode \<Rightarrow> nat option \<times> nat" where
  "callNodeKey n = (parentCallNodeIndex n, callNode.funcIndex n)"

definition parentPrecedes :: "callNode list \<Rightarrow> bool" where
  "parentPrecedes tbl =
     list_all (\<lambda>i. case parentCallNodeIndex (tbl ! i) of None \<Rightarrow> True | Some p \<Rightarrow> p < i)
       [0..<length tbl]"

definition callNodeTableOk :: "callNode list \<Rightarrow> bool" where
  "callNodeTableOk tbl \<longleftrightarrow> parentPrecedes tbl \<and> distinct (map callNodeKey tbl)"

text \<open>
  The root-to-leaf function path of a stack, and the well-formedness of a stack table
  (section 3, Stack: parents appear before children; every stack has a frame of the frame
  table).
\<close>

function stackFuncPath :: "stackEntry list \<Rightarrow> frame list \<Rightarrow> nat \<Rightarrow> nat list" where
  "stackFuncPath st ft s =
     (if s < length st then
        (case parentStackIndex (st ! s) of
           None \<Rightarrow> []
         | Some p \<Rightarrow> if p < s then stackFuncPath st ft p else [])
        @ [frame.funcIndex (ft ! frameIndex (st ! s))]
      else [])"
  by pat_completeness auto
termination
  by (relation "measure (\<lambda>(st, ft, s). s)") auto

declare stackFuncPath.simps [simp del]

definition stackTableOk :: "stackEntry list \<Rightarrow> frame list \<Rightarrow> bool" where
  "stackTableOk st ft =
     list_all (\<lambda>i. frameIndex (st ! i) < length ft
                 \<and> (case parentStackIndex (st ! i) of None \<Rightarrow> True | Some p \<Rightarrow> p < i))
       [0..<length st]"

section \<open>Selectors over the call-node table\<close>

text \<open>\<^verbatim>\<open>getCallNodeInfo\<close>, lines 67-81.\<close>

definition getCallNodeInfo :: "state \<Rightarrow> callNodeInfo" where
  "getCallNodeInfo s =
     (let t = getFilteredThread s in
      ProfileData_getCallNodeInfo (stackTable t) (frameTable t) (funcTable t) (getDefaultCategory s))"

text \<open>\<^verbatim>\<open>getSelectedCallNodePath\<close> and \<^verbatim>\<open>getSelectedCallNodeIndex\<close>, lines 89-103.\<close>

definition getSelectedCallNodePath :: "state \<Rightarrow> callNodePath" where
  "getSelectedCallNodePath s = selectedCallNodePath (getViewOptions s)"

definition getSelectedCallNodeIndex_compute :: "callNodeInfo \<Rightarrow> callNodePath \<Rightarrow> nat option" where
  "getSelectedCallNodeIndex_compute info callNodePath' =
     ProfileData_getCallNodeIndexFromPath callNodePath' (callNodeTable info)"

definition getSelectedCallNodeIndex :: "state \<Rightarrow> nat option" where
  "getSelectedCallNodeIndex s =
     getSelectedCallNodeIndex_compute (getCallNodeInfo s) (getSelectedCallNodePath s)"

text \<open>\<^verbatim>\<open>getRightClickedCallNodePath\<close> and \<^verbatim>\<open>getRightClickedCallNodeIndex\<close>, lines 105-118.\<close>

definition getRightClickedCallNodePath :: "state \<Rightarrow> callNodePath option" where
  "getRightClickedCallNodePath s = rightClickedCallNodePath (getViewOptions s)"

definition getRightClickedCallNodeIndex_compute ::
    "(callNodePath \<Rightarrow> callNode list \<Rightarrow> nat option) \<Rightarrow> callNodeInfo \<Rightarrow> callNodePath option \<Rightarrow> nat option" where
  "getRightClickedCallNodeIndex_compute lookup info callNodePath' =
     (case callNodePath' of
        None \<Rightarrow> None
      | Some p \<Rightarrow> lookup p (callNodeTable info))"

definition getRightClickedCallNodeIndex :: "state \<Rightarrow> nat option" where
  "getRightClickedCallNodeIndex s =
     getRightClickedCallNodeIndex_compute ProfileData_getCallNodeIndexFromPath
       (getCallNodeInfo s) (getRightClickedCallNodePath s)"

text \<open>\<^verbatim>\<open>getExpandedCallNodePaths\<close> and \<^verbatim>\<open>getExpandedCallNodeIndexes\<close>, lines 120-135.\<close>

definition getExpandedCallNodePaths :: "state \<Rightarrow> callNodePath list" where
  "getExpandedCallNodePaths s = expandedCallNodePaths (getViewOptions s)"

definition getExpandedCallNodeIndexes :: "state \<Rightarrow> nat option list" where
  "getExpandedCallNodeIndexes s =
     ProfileData_getCallNodeIndicesFromPaths (getExpandedCallNodePaths s)
       (callNodeTable (getCallNodeInfo s))"

text \<open>\<^verbatim>\<open>getSamplesSelectedStatesInFilteredThread\<close>, lines 137-169.\<close>

definition getSamplesSelectedStatesInFilteredThread_compute ::
    "profileData \<Rightarrow> thread \<Rightarrow> thread \<Rightarrow> callNodeInfo \<Rightarrow> nat option
       \<Rightarrow> error + selectedState list option" where
  "getSamplesSelectedStatesInFilteredThread_compute pd thread tabFilteredThread info selectedCallNode =
     (if isJsTracer thread then Inr None
      else
        (case getSampleIndexToCallNodeIndex pd (samplesTable.stack (samples thread))
                (stackIndexToCallNodeIndex info) of
           Inl e \<Rightarrow> Inl e
         | Inr sampleIndexToCallNodeIndex \<Rightarrow>
             (case getSampleIndexToCallNodeIndex pd (samplesTable.stack (samples tabFilteredThread))
                     (stackIndexToCallNodeIndex info) of
                Inl e \<Rightarrow> Inl e
              | Inr activeTabFilteredCallNodeIndex \<Rightarrow>
                  map_sum id Some
                    (getSamplesSelectedStates pd (callNodeTable info) sampleIndexToCallNodeIndex
                       activeTabFilteredCallNodeIndex selectedCallNode))))"

definition getSamplesSelectedStatesInFilteredThread ::
    "profileData \<Rightarrow> state \<Rightarrow> error + selectedState list option" where
  "getSamplesSelectedStatesInFilteredThread pd s =
     getSamplesSelectedStatesInFilteredThread_compute pd (getFilteredThread s)
       (getTabFilteredThread s) (getCallNodeInfo s) (getSelectedCallNodeIndex s)"

section \<open>The call tree aggregator\<close>

text \<open>
  Modelled from the spec: \<^verbatim>\<open>CallTree.computeCallTreeCountsAndTimings\<close>
  (\<^verbatim>\<open>profile-logic/call-tree\<close>) is not among the sources. Section 4.7: the input is a
  weighted row stream (timing samples or an allocation view), the call-node info, the
  sampling interval and the invert flag; each row with a resolvable call node gives its
  weight to that node as self and to that node and every ancestor up to the root as total;
  when inverted, the row's call node is the new root and its ancestors are the new leaves;
  rows with no resolvable call node are ignored. Section 3, Call Tree: self and total
  counts and weights per call node.

  A timing sample weighs one sampling interval (the three-sample scenario of section 8),
  an allocation row weighs its byte weight. Weights are idealised as reals.
\<close>

record callTreeCountsAndTimings =
  treeNodes :: "callNode list"
  selfCount :: "nat list"
  selfWeight :: "real list"
  totalCount :: "nat list"
  totalWeight :: "real list"

definition weightedRows :: "milliseconds \<Rightarrow> samplesLike \<Rightarrow> (nat option \<times> real) list" where
  "weightedRows interval rows =
     (case rows of
        Samples t \<Rightarrow> map (\<lambda>s. (s, interval)) (samplesTable.stack t)
      | JsAllocations t \<Rightarrow> zip (jsAllocationsTable.stack t) (jsAllocationsTable.weight t)
      | NativeAllocations t \<Rightarrow>
          zip (nativeAllocationsTable.stack t) (nativeAllocationsTable.weight t))"

text \<open>The call node a row's stack resolves to, if it is a call node of the table.\<close>

definition rowCallNode :: "callNodeInfo \<Rightarrow> nat option \<Rightarrow> nat option" where
  "rowCallNode info stackIndex =
     (case stackIndex of
        None \<Rightarrow> None
      | Some s \<Rightarrow>
          if s < length (stackIndexToCallNodeIndex info) then
            (case stackIndexToCallNodeIndex info ! s of
               None \<Rightarrow> None
             | Some c \<Rightarrow> if c < length (callNodeTable info) then Some c else None)
          else None)"

text \<open>
  A call node followed by its ancestors up to the root. As in
  \<open>getCallNodePathFromIndex\<close>, a parent that does not precede its child is not followed.
\<close>

function nodeToRoot :: "callNode list \<Rightarrow> nat \<Rightarrow> nat list" where
  "nodeToRoot tbl n =
     (if n < length tbl then
        n # (case parentCallNodeIndex (tbl ! n) of
               None \<Rightarrow> []
             | Some p \<Rightarrow> if p < n then nodeToRoot tbl p else [])
      else [])"
  by pat_completeness auto
termination
  by (relation "measure (\<lambda>(tbl, n). n)") auto

declare nodeToRoot.simps [simp del]

text \<open>
  One row's contribution: \<open>w\<close> as self to \<open>selfNode\<close>, and as total to every node of
  \<open>chain\<close>.
\<close>

definition addAt :: "nat \<Rightarrow> 'a::plus \<Rightarrow> 'a list \<Rightarrow> 'a list" where
  "addAt i w xs = xs[i := xs ! i + w]"

definition attributeRow ::
    "callTreeCountsAndTimings \<Rightarrow> nat \<times> nat list \<times> real \<Rightarrow> callTreeCountsAndTimings" where
  "attributeRow tree row =
     (case row of (selfNode, chain, w) \<Rightarrow>
        tree\<lparr> selfCount := addAt selfNode 1 (selfCount tree),
              selfWeight := addAt selfNode w (selfWeight tree),
              totalCount := fold (\<lambda>c. addAt c 1) chain (totalCount tree),
              totalWeight := fold (\<lambda>c. addAt c w) chain (totalWeight tree) \<rparr>)"

definition aggregate :: "callNode list \<Rightarrow> (nat \<times> nat list \<times> real) list \<Rightarrow> callTreeCountsAndTimings" where
  "aggregate tbl contributions =
     foldl attributeRow
       \<lparr> treeNodes = tbl,
         selfCount = replicate (length tbl) 0, selfWeight = replicate (length tbl) 0,
         totalCount = replicate (length tbl) 0, totalWeight = replicate (length tbl) 0 \<rparr>
       contributions"

text \<open>Not inverted: the tree is over the call-node table itself.\<close>

definition directContributions ::
    "callNodeInfo \<Rightarrow> (nat option \<times> real) list \<Rightarrow> (nat \<times> nat list \<times> real) list" where
  "directContributions info rows =
     concat (map (\<lambda>(stackIndex, w).
        case rowCallNode info stackIndex of
          None \<Rightarrow> []
        | Some n \<Rightarrow> [(n, nodeToRoot (callNodeTable info) n, w)]) rows)"

text \<open>
  Inverted: the tree is re-rooted. Each resolvable row's leaf-to-root sequence of
  (function, category) is entered from the synthetic root into a fresh call-node table,
  with the builder's rule (reuse the node keyed by parent and function, else allocate).
  \<open>insertPath\<close> returns the table and the nodes along the entered path, the new root
  first. The row's weight is self of the new root and total of every node on the path.
\<close>

fun insertPath :: "callNode list \<Rightarrow> nat option \<Rightarrow> (nat \<times> nat) list \<Rightarrow> callNode list \<times> nat list" where
  "insertPath tbl cur [] = (tbl, [])"
| "insertPath tbl cur ((f, category) # fs) =
     (case findCallNode tbl cur f of
        Some c \<Rightarrow>
          (case insertPath tbl (Some c) fs of (tbl', chain) \<Rightarrow> (tbl', c # chain))
      | None \<Rightarrow>
          (case insertPath (tbl @ [newCallNode tbl cur f category]) (Some (length tbl)) fs of
             (tbl', chain) \<Rightarrow> (tbl', length tbl # chain)))"

definition leafToRoot :: "callNode list \<Rightarrow> nat \<Rightarrow> (nat \<times> nat) list" where
  "leafToRoot tbl n =
     map (\<lambda>i. (callNode.funcIndex (tbl ! i), callNode.categoryIndex (tbl ! i))) (nodeToRoot tbl n)"

definition reRootRow ::
    "callNodeInfo \<Rightarrow> callNode list \<times> (nat \<times> nat list \<times> real) list \<Rightarrow> nat option \<times> real
       \<Rightarrow> callNode list \<times> (nat \<times> nat list \<times> real) list" where
  "reRootRow info acc row =
     (case acc of (tbl, contributions) \<Rightarrow>
      case row of (stackIndex, w) \<Rightarrow>
        (case rowCallNode info stackIndex of
           None \<Rightarrow> (tbl, contributions)
         | Some n \<Rightarrow>
             (case insertPath tbl None (leafToRoot (callNodeTable info) n) of
                (tbl', chain) \<Rightarrow> (tbl', contributions @ [(hd chain, chain, w)]))))"

definition reRoot ::
    "callNodeInfo \<Rightarrow> (nat option \<times> real) list \<Rightarrow> callNode list \<times> (nat \<times> nat list \<times> real) list" where
  "reRoot info rows = foldl (reRootRow info) ([], []) rows"

text \<open>
  Modelled from the spec: \<^verbatim>\<open>CallTree.computeCallTreeCountsAndTimings\<close>, the aggregation of
  section 4.7 over the weighted rows, on the call-node table or on the re-rooted one.
\<close>

definition computeCallTreeCountsAndTimings ::
    "samplesLike \<Rightarrow> callNodeInfo \<Rightarrow> milliseconds \<Rightarrow> bool \<Rightarrow> callTreeCountsAndTimings" where
  "computeCallTreeCountsAndTimings rows info interval invertCallstack =
     (if invertCallstack then
        (case reRoot info (weightedRows interval rows) of
           (tbl, contributions) \<Rightarrow> aggregate tbl contributions)
      else aggregate (callNodeTable info) (directContributions info (weightedRows interval rows)))"

text \<open>\<^verbatim>\<open>getCallTreeCountsAndTimings\<close>, lines 294-300.\<close>

definition getCallTreeCountsAndTimings :: "profileData \<Rightarrow> state \<Rightarrow> error + callTreeCountsAndTimings" where
  "getCallTreeCountsAndTimings pd s =
     (case getSamplesForCallTree pd s of
        Inl e \<Rightarrow> Inl e
      | Inr rows \<Rightarrow>
          Inr (computeCallTreeCountsAndTimings rows (getCallNodeInfo s) (getProfileInterval s)
                 (getInvertCallstack s)))"

text \<open>
  The two sides of the conservation law: the total weight of the root call nodes of a
  tree, and the weight of the rows that resolve to a call node.
\<close>

definition isRoot :: "callNode list \<Rightarrow> nat \<Rightarrow> bool" where
  "isRoot tbl i \<longleftrightarrow> parentCallNodeIndex (tbl ! i) = None"

definition sumOverRoots :: "callNode list \<Rightarrow> real list \<Rightarrow> real" where
  "sumOverRoots tbl ws = sum_list (map (\<lambda>i. ws ! i) (filter (isRoot tbl) [0..<length tbl]))"

definition rootTotalWeight :: "callTreeCountsAndTimings \<Rightarrow> real" where
  "rootTotalWeight tree = sumOverRoots (treeNodes tree) (totalWeight tree)"

definition resolvableWeight :: "callNodeInfo \<Rightarrow> (nat option \<times> real) list \<Rightarrow> real" where
  "resolvableWeight info rows =
     sum_list (map snd (filter (\<lambda>row. rowCallNode info (fst row) \<noteq> None) rows))"

text \<open>
  A run of call nodes of a table in which the first has the parent \<open>cur\<close> and each later
  one has its predecessor as parent.
\<close>

fun isChain :: "callNode list \<Rightarrow> nat option \<Rightarrow> nat list \<Rightarrow> bool" where
  "isChain tbl cur [] = True"
| "isChain tbl cur (c # cs) \<longleftrightarrow>
     c < length tbl \<and> parentCallNodeIndex (tbl ! c) = cur \<and> isChain tbl (Some c) cs"

section \<open>The derivation graph\<close>

text \<open>
  Every selector of \<^verbatim>\<open>getStackAndSampleSelectorsPerThread\<close> but one is built by
  \<^verbatim>\<open>createSelector\<close> from a list of input selectors and a result function;
  \<^verbatim>\<open>getRightClickedCallNodePath\<close> is a plain function of the state. The inputs are
  selectors of other modules (\<open>upstream\<close>) or selectors defined earlier in the function.
  \<open>dependencies\<close> lists the inputs of each selector in the order of the source, and
  \<open>position\<close> is the place of its definition in the source.
\<close>

datatype upstream =
    GetThread | GetFilteredThread | GetPreviewFilteredThread | GetTabFilteredThread
  | GetProfileInterval | GetDefaultCategory | GetViewOptions
  | GetLastSelectedCallTreeSummaryStrategy | GetInvertCallstack | GetCategories
  | GetImplementationFilter

datatype selector =
    UnfilteredSamplesRange | GetCallNodeInfo | GetCallNodeMaxDepth | GetSelectedCallNodePath
  | GetSelectedCallNodeIndex | GetRightClickedCallNodePath | GetRightClickedCallNodeIndex
  | GetExpandedCallNodePaths | GetExpandedCallNodeIndexes
  | GetSamplesSelectedStatesInFilteredThread | GetTreeOrderComparatorInFilteredThread
  | GetCallTreeSummaryStrategy | GetSamplesForCallTree | GetCallTreeCountsAndTimings
  | GetCallTree | GetStackTimingByDepth | GetCallNodeMaxDepthForFlameGraph
  | GetFlameGraphTiming

datatype dep = Up upstream | Sel selector

fun dependencies :: "selector \<Rightarrow> dep list" where
  "dependencies UnfilteredSamplesRange = [Up GetThread, Up GetProfileInterval]"
| "dependencies GetCallNodeInfo = [Up GetFilteredThread, Up GetDefaultCategory]"
| "dependencies GetCallNodeMaxDepth = [Up GetFilteredThread, Sel GetCallNodeInfo]"
| "dependencies GetSelectedCallNodePath = [Up GetViewOptions]"
| "dependencies GetSelectedCallNodeIndex = [Sel GetCallNodeInfo, Sel GetSelectedCallNodePath]"
| "dependencies GetRightClickedCallNodePath = [Up GetViewOptions]"
| "dependencies GetRightClickedCallNodeIndex =
     [Sel GetCallNodeInfo, Sel GetRightClickedCallNodePath]"
| "dependencies GetExpandedCallNodePaths = [Up GetViewOptions]"
| "dependencies GetExpandedCallNodeIndexes = [Sel GetCallNodeInfo, Sel GetExpandedCallNodePaths]"
| "dependencies GetSamplesSelectedStatesInFilteredThread =
     [Up GetFilteredThread, Up GetTabFilteredThread, Sel GetCallNodeInfo,
      Sel GetSelectedCallNodeIndex]"
| "dependencies GetTreeOrderComparatorInFilteredThread =
     [Up GetFilteredThread, Sel GetCallNodeInfo]"
| "dependencies GetCallTreeSummaryStrategy =
     [Up GetThread, Up GetLastSelectedCallTreeSummaryStrategy]"
| "dependencies GetSamplesForCallTree =
     [Up GetPreviewFilteredThread, Sel GetCallTreeSummaryStrategy]"
| "dependencies GetCallTreeCountsAndTimings =
     [Sel GetSamplesForCallTree, Sel GetCallNodeInfo, Up GetProfileInterval,
      Up GetInvertCallstack]"
| "dependencies GetCallTree =
     [Up GetPreviewFilteredThread, Up GetProfileInterval, Sel GetCallNodeInfo,
      Up GetCategories, Up GetImplementationFilter, Sel GetCallTreeCountsAndTimings,
      Sel GetCallTreeSummaryStrategy]"
| "dependencies GetStackTimingByDepth =
     [Up GetFilteredThread, Sel GetCallNodeInfo, Sel GetCallNodeMaxDepth,
      Up GetProfileInterval]"
| "dependencies GetCallNodeMaxDepthForFlameGraph =
     [Up GetPreviewFilteredThread, Sel GetCallNodeInfo]"
| "dependencies GetFlameGraphTiming =
     [Up GetPreviewFilteredThread, Sel GetCallNodeInfo, Sel GetCallTreeCountsAndTimings]"

fun position :: "selector \<Rightarrow> nat" where
  "position UnfilteredSamplesRange = 0"
| "position GetCallNodeInfo = 1"
| "position GetCallNodeMaxDepth = 2"
| "position GetSelectedCallNodePath = 3"
| "position GetSelectedCallNodeIndex = 4"
| "position GetRightClickedCallNodePath = 5"
| "position GetRightClickedCallNodeIndex = 6"
| "position GetExpandedCallNodePaths = 7"
| "position GetExpandedCallNodeIndexes = 8"
| "position GetSamplesSelectedStatesInFilteredThread = 9"
| "position GetTreeOrderComparatorInFilteredThread = 10"
| "position GetCallTreeSummaryStrategy = 11"
| "position GetSamplesForCallTree = 12"
| "position GetCallTreeCountsAndTimings = 13"
| "position GetCallTree = 14"
| "position GetStackTimingByDepth = 15"
| "position GetCallNodeMaxDepthForFlameGraph = 16"
| "position GetFlameGraphTiming = 17"

definition memoized :: "selector \<Rightarrow> bool" where
  "memoized x \<longleftrightarrow> x \<noteq> GetRightClickedCallNodePath"

text \<open>The accessors the function returns (lines 334-351).\<close>

definition exposed :: "selector list" where
  "exposed =
     [UnfilteredSamplesRange, GetCallNodeInfo, GetCallNodeMaxDepth, GetSelectedCallNodePath,
      GetSelectedCallNodeIndex, GetRightClickedCallNodePath, GetRightClickedCallNodeIndex,
      GetExpandedCallNodePaths, GetExpandedCallNodeIndexes,
      GetSamplesSelectedStatesInFilteredThread, GetTreeOrderComparatorInFilteredThread,
      GetCallTreeSummaryStrategy, GetCallTree, GetStackTimingByDepth,
      GetCallNodeMaxDepthForFlameGraph, GetFlameGraphTiming]"

text \<open>
  Modelled from the spec: \<^verbatim>\<open>createSelector\<close> comes from the library \<^verbatim>\<open>reselect\<close>, which
  is not among the sources. Section 4.1: a node wraps a function of its upstream values; on
  evaluation it compares each upstream's current value with the value used in the last
  computation, by identity; if all match it returns the cached output (the same
  reference), otherwise it recomputes and replaces the cache and the recorded inputs; if
  the wrapped function fails, the previous cache is retained and the failure propagates.

  Values are represented by their identities (\<open>ref\<close>). The ambient state gives the
  identity of each upstream value. What a result function returns for given inputs is a
  parameter: it may return a freshly allocated object (whose address \<open>nextRef\<close> is passed
  to it), an existing one, or fail. \<open>computed\<close> counts the calls of each result function.
  The plain selector reads a field of its input: a function of the input's identity,
  without cache or allocation.
\<close>

type_synonym ref = nat

type_synonym ambient = "upstream \<Rightarrow> ref"

record memo =
  cache :: "selector \<Rightarrow> (ref list \<times> ref) option"
  nextRef :: nat
  computed :: "selector \<Rightarrow> nat"

record resultFunctions =
  resultFn :: "selector \<Rightarrow> ref list \<Rightarrow> nat \<Rightarrow> error + ref"
  plainFn :: "selector \<Rightarrow> ref list \<Rightarrow> ref"

text \<open>
  Modelled from the spec: the evaluation of one node of section 4.1, once the current
  identities \<open>ins\<close> of its inputs are known.
\<close>

definition evaluate ::
    "resultFunctions \<Rightarrow> selector \<Rightarrow> ref list \<Rightarrow> memo \<Rightarrow> (error + ref) \<times> memo" where
  "evaluate P x ins m =
     (if memoized x then
        (case cache m x of
           Some (lastIns, lastOut) \<Rightarrow>
             if lastIns = ins then (Inr lastOut, m)
             else
               (case resultFn P x ins (nextRef m) of
                  Inl e \<Rightarrow> (Inl e, m\<lparr> computed := (computed m)(x := computed m x + 1) \<rparr>)
                | Inr out \<Rightarrow>
                    (Inr out, \<lparr> cache = (cache m)(x \<mapsto> (ins, out)), nextRef = Suc (nextRef m),
                                computed = (computed m)(x := computed m x + 1) \<rparr>))
         | None \<Rightarrow>
             (case resultFn P x ins (nextRef m) of
                Inl e \<Rightarrow> (Inl e, m\<lparr> computed := (computed m)(x := computed m x + 1) \<rparr>)
              | Inr out \<Rightarrow>
                  (Inr out, \<lparr> cache = (cache m)(x \<mapsto> (ins, out)), nextRef = Suc (nextRef m),
                              computed = (computed m)(x := computed m x + 1) \<rparr>)))
      else (Inr (plainFn P x ins), m))"

text \<open>
  Modelled from the spec: a read of section 4.1, pulled by the reader.
  Reading a selector reads its inputs in order, then evaluates the node. A selector reads
  only selectors defined before it; the test on \<open>position\<close> states this and makes the
  recursion end (it never fails for the graph above, lemma \<open>dependencies_earlier\<close>).
\<close>

function read :: "resultFunctions \<Rightarrow> ambient \<Rightarrow> selector \<Rightarrow> memo \<Rightarrow> (error + ref) \<times> memo"
  and readDeps ::
    "resultFunctions \<Rightarrow> ambient \<Rightarrow> selector \<Rightarrow> dep list \<Rightarrow> memo \<Rightarrow> (error + ref list) \<times> memo"
where
  "read P a x m =
     (case readDeps P a x (dependencies x) m of
        (Inl e, m') \<Rightarrow> (Inl e, m')
      | (Inr ins, m') \<Rightarrow> evaluate P x ins m')"
| "readDeps P a x [] m = (Inr [], m)"
| "readDeps P a x (Up u # ds) m =
     (case readDeps P a x ds m of
        (Inl e, m') \<Rightarrow> (Inl e, m')
      | (Inr ins, m') \<Rightarrow> (Inr (a u # ins), m'))"
| "readDeps P a x (Sel y # ds) m =
     (if position y < position x then
        (case read P a y m of
           (Inl e, m') \<Rightarrow> (Inl e, m')
         | (Inr v, m') \<Rightarrow>
             (case readDeps P a x ds m' of
                (Inl e, m'') \<Rightarrow> (Inl e, m'')
              | (Inr ins, m'') \<Rightarrow> (Inr (v # ins), m'')))
      else (Inl (Error ''selector read before its definition''), m))"
  by pat_completeness auto
termination
  by (relation "measures
        [\<lambda>v. case v of Inl (P, a, x, m) \<Rightarrow> position x | Inr (P, a, x, ds, m) \<Rightarrow> position x,
         \<lambda>v. case v of Inl (P, a, x, m) \<Rightarrow> Suc (length (dependencies x))
                      | Inr (P, a, x, ds, m) \<Rightarrow> length ds]")
     auto

declare read.simps [simp del] readDeps.simps [simp del]

text \<open>
  The value a selector has in a cache without any recomputation: the cached output, if
  the recorded inputs are the current values of its inputs, which must have such a value
  themselves.
\<close>

function valueOf ::
    "resultFunctions \<Rightarrow> ambient \<Rightarrow> (selector \<Rightarrow> (ref list \<times> ref) option) \<Rightarrow> selector \<Rightarrow> ref option"
  and valuesOf ::
    "resultFunctions \<Rightarrow> ambient \<Rightarrow> (selector \<Rightarrow> (ref list \<times> ref) option) \<Rightarrow> selector \<Rightarrow> dep list
       \<Rightarrow> ref list option"
where
  "valueOf P a c x =
     (case valuesOf P a c x (dependencies x) of
        None \<Rightarrow> None
      | Some ins \<Rightarrow>
          if memoized x then
            (case c x of
               Some (lastIns, lastOut) \<Rightarrow> if lastIns = ins then Some lastOut else None
             | None \<Rightarrow> None)
          else Some (plainFn P x ins))"
| "valuesOf P a c x [] = Some []"
| "valuesOf P a c x (Up u # ds) =
     (case valuesOf P a c x ds of None \<Rightarrow> None | Some ins \<Rightarrow> Some (a u # ins))"
| "valuesOf P a c x (Sel y # ds) =
     (if position y < position x then
        (case valueOf P a c y of
           None \<Rightarrow> None
         | Some v \<Rightarrow> (case valuesOf P a c x ds of None \<Rightarrow> None | Some ins \<Rightarrow> Some (v # ins)))
      else None)"
  by pat_completeness auto
termination
  by (relation "measures
        [\<lambda>v. case v of Inl (P, a, c, x) \<Rightarrow> position x | Inr (P, a, c, x, ds) \<Rightarrow> position x,
         \<lambda>v. case v of Inl (P, a, c, x) \<Rightarrow> Suc (length (dependencies x))
                      | Inr (P, a, c, x, ds) \<Rightarrow> length ds]")
     auto

declare valueOf.simps [simp del] valuesOf.simps [simp del]

text \<open>An empty memo, and result functions that allocate a fresh object at each call.\<close>

definition emptyMemo :: memo where
  "emptyMemo = \<lparr> cache = (\<lambda>x. None), nextRef = 100, computed = (\<lambda>x. 0) \<rparr>"

definition allocating :: resultFunctions where
  "allocating = \<lparr> resultFn = (\<lambda>x ins fresh. Inr fresh), plainFn = (\<lambda>x ins. sum_list ins + 50) \<rparr>"

definition exampleAmbient :: ambient where
  "exampleAmbient u = (if u = GetViewOptions then 7 else 1)"

text \<open>
  Two relations between the memo before and after a read, for the proofs: the selectors
  that had a value keep their cache entry and are not recomputed, and no result function is
  called twice; every selector whose result function was called has a value afterwards.
\<close>

definition keepsSettled :: "resultFunctions \<Rightarrow> ambient \<Rightarrow> memo \<Rightarrow> memo \<Rightarrow> bool" where
  "keepsSettled P a m m' \<longleftrightarrow>
     (\<forall>z. valueOf P a (cache m) z \<noteq> None \<longrightarrow>
           cache m' z = cache m z \<and> computed m' z = computed m z)
     \<and> (\<forall>z. computed m' z \<le> computed m z + 1)"

definition recomputedSettled :: "resultFunctions \<Rightarrow> ambient \<Rightarrow> memo \<Rightarrow> memo \<Rightarrow> bool" where
  "recomputedSettled P a m m' \<longleftrightarrow>
     (\<forall>z. computed m' z \<noteq> computed m z \<longrightarrow> valueOf P a (cache m') z \<noteq> None)"

text \<open>
  The memo after \<^verbatim>\<open>getSelectedCallNodeIndex\<close> was read in the empty memo, and after it
  was read again with new view options.
\<close>

definition settledMemo :: memo where
  "settledMemo =
     \<lparr> cache = (\<lambda>x. None)(GetCallNodeInfo \<mapsto> ([1, 1], 100),
                 GetSelectedCallNodePath \<mapsto> ([7], 101),
                 GetSelectedCallNodeIndex \<mapsto> ([100, 101], 102)),
       nextRef = 103,
       computed = (\<lambda>x. 0)(GetCallNodeInfo := 1, GetSelectedCallNodePath := 1,
                    GetSelectedCallNodeIndex := 1) \<rparr>"

definition resettledMemo :: memo where
  "resettledMemo =
     \<lparr> cache = (\<lambda>x. None)(GetCallNodeInfo \<mapsto> ([1, 1], 100),
                 GetSelectedCallNodePath \<mapsto> ([8], 103),
                 GetSelectedCallNodeIndex \<mapsto> ([100, 103], 104)),
       nextRef = 105,
       computed = (\<lambda>x. 0)(GetCallNodeInfo := 1, GetSelectedCallNodePath := 2,
                    GetSelectedCallNodeIndex := 2) \<rparr>"

text \<open>
  The invariant of a call-node info: its table is a call-node table, and every stack is
  mapped to a call node of the table.
\<close>

definition callNodeInfoOk :: "callNodeInfo \<Rightarrow> bool" where
  "callNodeInfoOk info \<longleftrightarrow>
     callNodeTableOk (callNodeTable info)
     \<and> list_all (\<lambda>e. case e of None \<Rightarrow> True | Some c \<Rightarrow> c < length (callNodeTable info))
         (stackIndexToCallNodeIndex info)"

section \<open>The strategy names, and a small thread to compute on\<close>

text \<open>The six summary strategies the selectors recognise, and the four native ones.\<close>

definition callTreeSummaryStrategies :: "string list" where
  "callTreeSummaryStrategies =
     [''timing'', ''js-allocations'', ''native-allocations'', ''native-retained-allocations'',
      ''native-deallocations-sites'', ''native-deallocations-memory'']"

definition nativeStrategies :: "string list" where
  "nativeStrategies =
     [''native-allocations'', ''native-retained-allocations'',
      ''native-deallocations-sites'', ''native-deallocations-memory'']"

text \<open>
  A thread with the functions A, B and C: the stacks A, A-B, A-C, and a second copy of A
  and of A-B; three samples (A-B, A-B through the copy, A-C) at the times 0, 1, 2; a native
  allocation table without memory addresses.
\<close>

definition exampleStackTable :: "stackEntry list" where
  "exampleStackTable =
     [\<lparr>frameIndex = 0, parentStackIndex = None\<rparr>,
      \<lparr>frameIndex = 1, parentStackIndex = Some 0\<rparr>,
      \<lparr>frameIndex = 2, parentStackIndex = Some 0\<rparr>,
      \<lparr>frameIndex = 0, parentStackIndex = None\<rparr>,
      \<lparr>frameIndex = 1, parentStackIndex = Some 3\<rparr>]"

definition exampleFrameTable :: "frame list" where
  "exampleFrameTable =
     [\<lparr>frame.funcIndex = 0, frame.categoryIndex = 0\<rparr>,
      \<lparr>frame.funcIndex = 1, frame.categoryIndex = 0\<rparr>,
      \<lparr>frame.funcIndex = 2, frame.categoryIndex = 0\<rparr>]"

definition exampleNativeAllocations :: nativeAllocationsTable where
  "exampleNativeAllocations =
     \<lparr> nativeAllocationsTable.time = [0, 1], weight = [16, -16],
       stack = [Some 1, Some 2], memoryAddress = None \<rparr>"

definition exampleThread :: thread where
  "exampleThread =
     \<lparr> samples = \<lparr> samplesTable.stack = [Some 1, Some 4, Some 2], samplesTable.time = [0, 1, 2] \<rparr>,
       jsAllocations = None,
       nativeAllocations = Some exampleNativeAllocations,
       isJsTracer = False,
       stackTable = exampleStackTable,
       frameTable = exampleFrameTable,
       funcTable = [\<lparr>name = ''A'', origin = ''''\<rparr>, \<lparr>name = ''B'', origin = ''''\<rparr>,
                    \<lparr>name = ''C'', origin = ''''\<rparr>] \<rparr>"

definition exampleState :: state where
  "exampleState =
     \<lparr> getThread = exampleThread,
       getFilteredThread = exampleThread,
       getPreviewFilteredThread = exampleThread,
       getTabFilteredThread = exampleThread,
       getProfileInterval = 1,
       getDefaultCategory = 0,
       getViewOptions =
         \<lparr> selectedCallNodePath = [0, 1], rightClickedCallNodePath = None,
           expandedCallNodePaths = [] \<rparr>,
       getLastSelectedCallTreeSummaryStrategy = ''native-retained-allocations'',
       getInvertCallstack = False \<rparr>"

text \<open>Profile-data functions that all fail.\<close>

definition failingProfileData :: profileData where
  "failingProfileData =
     \<lparr> filterToAllocations = (\<lambda>t. Inl (Error ''unavailable'')),
       filterToRetainedAllocations = (\<lambda>t. Inl (Error ''unavailable'')),
       filterToDeallocationsSites = (\<lambda>t. Inl (Error ''unavailable'')),
       filterToDeallocationsMemory = (\<lambda>t. Inl (Error ''unavailable'')),
       getSampleIndexToCallNodeIndex = (\<lambda>stacks idx. Inl (Error ''unavailable'')),
       getSamplesSelectedStates = (\<lambda>tbl a b sel. Inl (Error ''unavailable'')) \<rparr>"

section \<open>Properties of the selectors over the raw thread\<close>

text \<open>
  C9. \<^verbatim>\<open>unfilteredSamplesRange\<close> returns null exactly when the thread's sample time array
  is empty; otherwise the range starts at the first sample time and ends at the last sample
  time plus the sampling interval.
\<close>

theorem unfilteredSamplesRange_spec:
  "(unfilteredSamplesRange s = None \<longleftrightarrow> samplesTable.time (samples (getThread s)) = [])
   \<and> (samplesTable.time (samples (getThread s)) \<noteq> [] \<longrightarrow>
        unfilteredSamplesRange s =
          Some \<lparr> rangeStart = hd (samplesTable.time (samples (getThread s))),
                 rangeEnd = last (samplesTable.time (samples (getThread s))) + getProfileInterval s \<rparr>)"
  by (auto simp: unfilteredSamplesRange_def unfilteredSamplesRange_compute_def Let_def
      hd_conv_nth last_conv_nth)

theorem unfilteredSamplesRange_spec_witness:
  "samplesTable.time (samples (getThread exampleState)) \<noteq> []
   \<and> unfilteredSamplesRange exampleState = Some \<lparr> rangeStart = 0, rangeEnd = 3 \<rparr>
   \<and> unfilteredSamplesRange
         (exampleState\<lparr> getThread := exampleThread\<lparr> samples :=
            \<lparr> samplesTable.stack = [], samplesTable.time = [] \<rparr> \<rparr> \<rparr>) = None"
  using unfilteredSamplesRange_spec [of exampleState]
    unfilteredSamplesRange_spec [of "exampleState\<lparr> getThread := exampleThread\<lparr> samples :=
            \<lparr> samplesTable.stack = [], samplesTable.time = [] \<rparr> \<rparr> \<rparr>"]
  by (simp add: exampleState_def exampleThread_def)

text \<open>
  C1. For a recognised last-chosen strategy, the effective strategy is the last-chosen one
  when it is \<^verbatim>\<open>timing\<close>, when it is \<^verbatim>\<open>js-allocations\<close> and the thread has a JS allocation
  table, or when it is one of the four native strategies and the thread has a native
  allocation table; in every other recognised case it is \<^verbatim>\<open>timing\<close>.
\<close>

theorem getCallTreeSummaryStrategy_effective:
  assumes "lastSelected \<in> set callTreeSummaryStrategies"
  shows "getCallTreeSummaryStrategy_compute thread lastSelected =
           Inr (if lastSelected = ''timing''
                   \<or> (lastSelected = ''js-allocations'' \<and> jsAllocations thread \<noteq> None)
                   \<or> (lastSelected \<in> set nativeStrategies \<and> nativeAllocations thread \<noteq> None)
                then lastSelected else ''timing'')"
  using assms
  unfolding callTreeSummaryStrategies_def nativeStrategies_def
    getCallTreeSummaryStrategy_compute_def
  by (elim disjE | simp)+

theorem getCallTreeSummaryStrategy_effective_witness:
  "''native-allocations'' \<in> set callTreeSummaryStrategies
   \<and> getCallTreeSummaryStrategy_compute exampleThread ''native-allocations''
       = Inr ''native-allocations''
   \<and> getCallTreeSummaryStrategy_compute (exampleThread\<lparr> nativeAllocations := None \<rparr>)
         ''native-allocations'' = Inr ''timing''"
proof -
  have h: "''native-allocations'' \<in> set callTreeSummaryStrategies"
    by (simp add: callTreeSummaryStrategies_def)
  show ?thesis
    using h getCallTreeSummaryStrategy_effective [OF h, of exampleThread]
      getCallTreeSummaryStrategy_effective [OF h, of "exampleThread\<lparr> nativeAllocations := None \<rparr>"]
    by (simp add: exampleThread_def nativeStrategies_def)
qed

text \<open>
  C2. When the thread's native allocation table is present but has no
  \<^verbatim>\<open>memoryAddress\<close> column, selecting the samples under \<^verbatim>\<open>native-retained-allocations\<close>
  or \<^verbatim>\<open>native-deallocations-memory\<close> throws the descriptive error; no filter is called
  and no other stream is returned.
\<close>

theorem getSamplesForCallTree_missing_memoryAddress:
  assumes "nativeAllocations thread = Some table"
      and "memoryAddress table = None"
      and "strategy = ''native-retained-allocations'' \<or> strategy = ''native-deallocations-memory''"
  shows "getSamplesForCallTree_compute pd thread strategy = Inl (Error missingMemoryAddresses)"
  using assms
  by (auto simp: getSamplesForCallTree_compute_def ensureExists_def)

theorem getSamplesForCallTree_missing_memoryAddress_witness:
  "nativeAllocations exampleThread = Some exampleNativeAllocations
   \<and> memoryAddress exampleNativeAllocations = None
   \<and> getSamplesForCallTree_compute failingProfileData exampleThread ''native-retained-allocations''
       = Inl (Error ''Attempting to filter by retained allocations data that is missing the memory addresses.'')
   \<and> getSamplesForCallTree failingProfileData exampleState
       = Inl (Error ''Attempting to filter by retained allocations data that is missing the memory addresses.'')"
proof -
  have h1: "nativeAllocations exampleThread = Some exampleNativeAllocations"
    by (simp add: exampleThread_def)
  have h2: "memoryAddress exampleNativeAllocations = None"
    by (simp add: exampleNativeAllocations_def)
  have h3: "getCallTreeSummaryStrategy exampleState = Inr ''native-retained-allocations''"
    by (simp add: getCallTreeSummaryStrategy_def getCallTreeSummaryStrategy_compute_def
        exampleState_def exampleThread_def)
  have h4: "getPreviewFilteredThread exampleState = exampleThread"
    by (simp add: exampleState_def)
  show ?thesis
    using h1 h2 getSamplesForCallTree_missing_memoryAddress
      [OF h1 h2, of "''native-retained-allocations''" failingProfileData]
    by (simp add: getSamplesForCallTree_def h3 h4 missingMemoryAddresses_def)
qed

text \<open>
  C7. For a filtered thread flagged as a JS tracer thread, the selected-states accessor
  returns null and raises nothing, whatever the selection, the tab-filtered thread and the
  classifier are.
\<close>

theorem getSamplesSelectedStates_jsTracer:
  assumes "isJsTracer (getFilteredThread s)"
  shows "getSamplesSelectedStatesInFilteredThread pd s = Inr None"
  using assms
  by (simp add: getSamplesSelectedStatesInFilteredThread_def
      getSamplesSelectedStatesInFilteredThread_compute_def)

theorem getSamplesSelectedStates_jsTracer_witness:
  "isJsTracer (getFilteredThread
      (exampleState\<lparr> getFilteredThread := exampleThread\<lparr> isJsTracer := True \<rparr> \<rparr>))
   \<and> getSamplesSelectedStatesInFilteredThread failingProfileData
        (exampleState\<lparr> getFilteredThread := exampleThread\<lparr> isJsTracer := True \<rparr> \<rparr>) = Inr None"
proof -
  have h: "isJsTracer (getFilteredThread
      (exampleState\<lparr> getFilteredThread := exampleThread\<lparr> isJsTracer := True \<rparr> \<rparr>))"
    by simp
  show ?thesis
    using h getSamplesSelectedStates_jsTracer [OF h, of failingProfileData] by simp
qed

text \<open>
  C10. When the right-clicked call-node path is null, \<^verbatim>\<open>getRightClickedCallNodeIndex\<close>
  returns null whatever the lookup function and the call-node table are; when the path is
  not null, the result is the path lookup in the call-node table.
\<close>

theorem getRightClickedCallNodeIndex_null_path:
  "getRightClickedCallNodeIndex_compute lookup info None = None
   \<and> (getRightClickedCallNodePath s = None \<longrightarrow> getRightClickedCallNodeIndex s = None)
   \<and> (\<forall>p. getRightClickedCallNodePath s = Some p \<longrightarrow>
          getRightClickedCallNodeIndex s =
            ProfileData_getCallNodeIndexFromPath p (callNodeTable (getCallNodeInfo s)))"
  by (simp add: getRightClickedCallNodeIndex_compute_def getRightClickedCallNodeIndex_def)

theorem getRightClickedCallNodeIndex_null_path_witness:
  "getRightClickedCallNodePath exampleState = None
   \<and> getRightClickedCallNodeIndex exampleState = None
   \<and> getRightClickedCallNodePath
        (exampleState\<lparr> getViewOptions := \<lparr> selectedCallNodePath = [],
           rightClickedCallNodePath = Some [0, 2], expandedCallNodePaths = [] \<rparr> \<rparr>) = Some [0, 2]
   \<and> getRightClickedCallNodeIndex
        (exampleState\<lparr> getViewOptions := \<lparr> selectedCallNodePath = [],
           rightClickedCallNodePath = Some [0, 2], expandedCallNodePaths = [] \<rparr> \<rparr>) = Some 2"
proof -
  have h1: "getRightClickedCallNodePath exampleState = None"
    by (simp add: getRightClickedCallNodePath_def exampleState_def)
  have h2: "getRightClickedCallNodePath
        (exampleState\<lparr> getViewOptions := \<lparr> selectedCallNodePath = [],
           rightClickedCallNodePath = Some [0, 2], expandedCallNodePaths = [] \<rparr> \<rparr>) = Some [0, 2]"
    by (simp add: getRightClickedCallNodePath_def)
  have h3: "callNodeTable (getCallNodeInfo
        (exampleState\<lparr> getViewOptions := \<lparr> selectedCallNodePath = [],
           rightClickedCallNodePath = Some [0, 2], expandedCallNodePaths = [] \<rparr> \<rparr>)) =
      [\<lparr>callNode.funcIndex = 0, callNode.categoryIndex = 0, depth = 0, parentCallNodeIndex = None\<rparr>,
       \<lparr>callNode.funcIndex = 1, callNode.categoryIndex = 0, depth = 1, parentCallNodeIndex = Some 0\<rparr>,
       \<lparr>callNode.funcIndex = 2, callNode.categoryIndex = 0, depth = 1, parentCallNodeIndex = Some 0\<rparr>]"
    by (simp add: getCallNodeInfo_def ProfileData_getCallNodeInfo_def addStack_def
        parentCallNode_def findCallNode_def newCallNode_def exampleState_def exampleThread_def
        exampleStackTable_def exampleFrameTable_def)
  show ?thesis
    using h1 h2
      getRightClickedCallNodeIndex_null_path [of "\<lambda>p t. None" "getCallNodeInfo exampleState" exampleState]
      getRightClickedCallNodeIndex_null_path [of "\<lambda>p t. None" "getCallNodeInfo exampleState"
        "exampleState\<lparr> getViewOptions := \<lparr> selectedCallNodePath = [],
           rightClickedCallNodePath = Some [0, 2], expandedCallNodePaths = [] \<rparr> \<rparr>"]
    by (simp add: h3 ProfileData_getCallNodeIndexFromPath_def findCallNode_def)
qed

section \<open>Properties of the call-node table builder\<close>

lemma findIndex_Some: "findIndex P xs = Some i \<Longrightarrow> i < length xs \<and> P (xs ! i)"
proof (induction xs arbitrary: i)
  case Nil
  then show ?case by simp
next
  case (Cons x xs)
  then show ?case by (auto split: if_splits)
qed

lemma findIndex_None_iff: "findIndex P xs = None \<longleftrightarrow> (\<forall>x\<in>set xs. \<not> P x)"
  by (induction xs) auto

lemma findIndex_append_Some:
  "findIndex P xs = Some i \<Longrightarrow> findIndex P (xs @ ys) = Some i"
  by (induction xs arbitrary: i) (auto split: if_splits)

lemma findIndex_append_None:
  "findIndex P xs = None \<Longrightarrow>
     findIndex P (xs @ ys) = (case findIndex P ys of None \<Rightarrow> None | Some i \<Rightarrow> Some (length xs + i))"
  by (induction xs) (auto split: if_splits option.splits)

lemma findIndex_distinct:
  "distinct (map k xs) \<Longrightarrow> i < length xs \<Longrightarrow> findIndex (\<lambda>x. k x = k (xs ! i)) xs = Some i"
proof (induction xs arbitrary: i)
  case Nil
  then show ?case by simp
next
  case (Cons x xs)
  show ?case
  proof (cases i)
    case 0
    then show ?thesis by simp
  next
    case (Suc j)
    with Cons.prems have j: "j < length xs" and d: "distinct (map k xs)"
      and nx: "k x \<notin> k ` set xs" by auto
    from j nx have "k x \<noteq> k (xs ! j)" by (metis imageI nth_mem)
    with Cons.IH [OF d j] Suc show ?thesis by simp
  qed
qed

lemma findCallNode_Some:
  "findCallNode tbl p f = Some c \<Longrightarrow>
     c < length tbl \<and> parentCallNodeIndex (tbl ! c) = p \<and> callNode.funcIndex (tbl ! c) = f"
  unfolding findCallNode_def by (drule findIndex_Some) simp

lemma findCallNode_append_Some:
  "findCallNode tbl p f = Some c \<Longrightarrow> findCallNode (tbl @ ext) p f = Some c"
  by (simp add: findCallNode_def findIndex_append_Some)

lemma findCallNode_append_new:
  "findCallNode tbl p f = None \<Longrightarrow>
     findCallNode (tbl @ [newCallNode tbl p f cat]) p f = Some (length tbl)"
  by (simp add: findCallNode_def findIndex_append_None newCallNode_def)

lemma findCallNode_self:
  assumes "distinct (map callNodeKey tbl)" and "i < length tbl"
  shows "findCallNode tbl (parentCallNodeIndex (tbl ! i)) (callNode.funcIndex (tbl ! i)) = Some i"
proof -
  have "(\<lambda>n. parentCallNodeIndex n = parentCallNodeIndex (tbl ! i)
              \<and> callNode.funcIndex n = callNode.funcIndex (tbl ! i))
        = (\<lambda>n. callNodeKey n = callNodeKey (tbl ! i))"
    by (auto simp: callNodeKey_def fun_eq_iff)
  then show ?thesis
    using findIndex_distinct [OF assms] by (simp add: findCallNode_def)
qed

lemma parentPrecedes_iff:
  "parentPrecedes tbl \<longleftrightarrow>
     (\<forall>i<length tbl. \<forall>p. parentCallNodeIndex (tbl ! i) = Some p \<longrightarrow> p < i)"
  by (auto simp: parentPrecedes_def list_all_iff split: option.splits)

lemma stackTableOk_iff:
  "stackTableOk st ft \<longleftrightarrow>
     (\<forall>i<length st. frameIndex (st ! i) < length ft
        \<and> (\<forall>p. parentStackIndex (st ! i) = Some p \<longrightarrow> p < i))"
  by (auto simp: stackTableOk_def list_all_iff split: option.splits)


lemma addStack_idx_length:
  "length (stackIndexToCallNodeIndex (addStack ft info e)) =
     Suc (length (stackIndexToCallNodeIndex info))"
  by (auto simp: addStack_def Let_def split: option.splits)

lemma findCallNode_None_key:
  "findCallNode tbl p f = None \<Longrightarrow> (p, f) \<notin> set (map callNodeKey tbl)"
  by (auto simp: findCallNode_def findIndex_None_iff callNodeKey_def)

lemma callNodeTableOk_snoc:
  "callNodeTableOk (tbl @ [n]) \<longleftrightarrow>
     callNodeTableOk tbl
     \<and> (\<forall>p. parentCallNodeIndex n = Some p \<longrightarrow> p < length tbl)
     \<and> callNodeKey n \<notin> set (map callNodeKey tbl)"
  by (auto simp: callNodeTableOk_def parentPrecedes_iff nth_append less_Suc_eq)

lemma callNodeInfoOk_iff:
  "callNodeInfoOk info \<longleftrightarrow>
     callNodeTableOk (callNodeTable info)
     \<and> (\<forall>c. Some c \<in> set (stackIndexToCallNodeIndex info) \<longrightarrow> c < length (callNodeTable info))"
  by (auto simp: callNodeInfoOk_def list_all_iff split: option.splits)

lemma parentCallNode_bound:
  assumes "\<forall>c. Some c \<in> set idx \<longrightarrow> c < n"
      and "parentCallNode idx e = Some (Some p)"
  shows "p < n"
proof -
  from assms(2) obtain q where q: "q < length idx" "idx ! q = Some p"
    by (auto simp: parentCallNode_def split: option.splits if_splits)
  then have "Some p \<in> set idx" by (metis nth_mem)
  with assms(1) show ?thesis by simp
qed

lemma addStack_ok:
  assumes "callNodeInfoOk info"
  shows "callNodeInfoOk (addStack ft info e)"
proof -
  let ?tbl = "callNodeTable info" and ?idx = "stackIndexToCallNodeIndex info"
  from assms have tok: "callNodeTableOk ?tbl"
    and iok: "\<forall>c. Some c \<in> set ?idx \<longrightarrow> c < length ?tbl"
    by (simp_all add: callNodeInfoOk_iff)
  show ?thesis
  proof (cases "frameIndex e < length ft")
    case False
    with tok iok show ?thesis by (simp add: addStack_def callNodeInfoOk_iff Let_def)
  next
    case inrange: True
    show ?thesis
    proof (cases "parentCallNode ?idx e")
      case None
      with tok iok inrange show ?thesis by (simp add: addStack_def callNodeInfoOk_iff Let_def)
    next
      case (Some par)
      let ?f = "frame.funcIndex (ft ! frameIndex e)"
      show ?thesis
      proof (cases "findCallNode ?tbl par ?f")
        case found: (Some c)
        then have "c < length ?tbl" by (simp add: findCallNode_Some)
        with tok iok inrange Some found show ?thesis
          by (auto simp: addStack_def callNodeInfoOk_iff Let_def)
      next
        case None
        let ?n = "newCallNode ?tbl par ?f (frame.categoryIndex (ft ! frameIndex e))"
        have key: "callNodeKey ?n = (par, ?f)"
          by (simp add: callNodeKey_def newCallNode_def)
        have par: "\<forall>p. parentCallNodeIndex ?n = Some p \<longrightarrow> p < length ?tbl"
          using parentCallNode_bound [OF iok, of e] Some by (auto simp: newCallNode_def)
        have t: "callNodeTableOk (?tbl @ [?n])"
          using tok par findCallNode_None_key [OF None] key
          by (simp only: callNodeTableOk_snoc) simp
        from inrange Some None t iok show ?thesis
          by (auto simp: addStack_def callNodeInfoOk_iff Let_def less_Suc_eq)
      qed
    qed
  qed
qed

lemma foldl_addStack_ok:
  "callNodeInfoOk info \<Longrightarrow> callNodeInfoOk (foldl (addStack ft) info es)"
  by (induction es arbitrary: info) (simp_all add: addStack_ok)

lemma getCallNodeInfo_ok:
  "callNodeInfoOk (ProfileData_getCallNodeInfo st ft fns dc)"
  unfolding ProfileData_getCallNodeInfo_def
  by (rule foldl_addStack_ok) (simp add: callNodeInfoOk_def callNodeTableOk_def parentPrecedes_def)

lemma addStack_step:
  assumes "frameIndex e < length ft"
      and "parentCallNode (stackIndexToCallNodeIndex info) e = Some par"
  shows "\<exists>c ext.
           stackIndexToCallNodeIndex (addStack ft info e) = stackIndexToCallNodeIndex info @ [Some c]
           \<and> callNodeTable (addStack ft info e) = callNodeTable info @ ext
           \<and> findCallNode (callNodeTable info @ ext) par (frame.funcIndex (ft ! frameIndex e)) = Some c"
proof (cases "findCallNode (callNodeTable info) par (frame.funcIndex (ft ! frameIndex e))")
  case None
  with assms show ?thesis
    by (simp add: addStack_def Let_def findCallNode_append_new)
next
  case (Some c)
  with assms have
    "stackIndexToCallNodeIndex (addStack ft info e) = stackIndexToCallNodeIndex info @ [Some c]
     \<and> callNodeTable (addStack ft info e) = callNodeTable info @ []
     \<and> findCallNode (callNodeTable info @ []) par (frame.funcIndex (ft ! frameIndex e)) = Some c"
    by (simp add: addStack_def Let_def)
  then show ?thesis by blast
qed

lemma parentCallNode_append:
  "parentCallNode idx e = Some par \<Longrightarrow> parentCallNode (idx @ ys) e = Some par"
  by (auto simp: parentCallNode_def nth_append split: option.splits if_splits)


lemma build_stack_inv:
  assumes ok: "stackTableOk st ft"
  shows "k \<le> length st \<Longrightarrow>
    length (stackIndexToCallNodeIndex
              (foldl (addStack ft) \<lparr>callNodeTable = [], stackIndexToCallNodeIndex = []\<rparr> (take k st))) = k
    \<and> (\<forall>s<k. \<exists>c par.
          stackIndexToCallNodeIndex
            (foldl (addStack ft) \<lparr>callNodeTable = [], stackIndexToCallNodeIndex = []\<rparr> (take k st)) ! s
            = Some c
          \<and> parentCallNode
              (stackIndexToCallNodeIndex
                (foldl (addStack ft) \<lparr>callNodeTable = [], stackIndexToCallNodeIndex = []\<rparr> (take k st)))
              (st ! s) = Some par
          \<and> findCallNode
              (callNodeTable
                (foldl (addStack ft) \<lparr>callNodeTable = [], stackIndexToCallNodeIndex = []\<rparr> (take k st)))
              par (frame.funcIndex (ft ! frameIndex (st ! s))) = Some c)"
proof (induction k)
  case 0
  show ?case by simp
next
  case (Suc k)
  let ?init = "\<lparr>callNodeTable = [], stackIndexToCallNodeIndex = []\<rparr>"
  let ?B = "foldl (addStack ft) ?init (take k st)"
  let ?idx = "stackIndexToCallNodeIndex ?B" and ?tbl = "callNodeTable ?B"
  from Suc.prems have k: "k < length st" by simp
  with Suc.IH have len: "length ?idx = k"
    and inv: "\<And>s. s < k \<Longrightarrow> \<exists>c par. ?idx ! s = Some c
                \<and> parentCallNode ?idx (st ! s) = Some par
                \<and> findCallNode ?tbl par (frame.funcIndex (ft ! frameIndex (st ! s))) = Some c"
    by simp_all
  have step: "foldl (addStack ft) ?init (take (Suc k) st) = addStack ft ?B (st ! k)"
    using k by (simp add: take_Suc_conv_app_nth)
  from ok k have fr: "frameIndex (st ! k) < length ft"
    and pp: "\<And>p. parentStackIndex (st ! k) = Some p \<Longrightarrow> p < k"
    by (simp_all add: stackTableOk_iff)
  have "\<exists>par. parentCallNode ?idx (st ! k) = Some par"
  proof (cases "parentStackIndex (st ! k)")
    case None
    then show ?thesis by (simp add: parentCallNode_def)
  next
    case (Some p)
    with pp have "p < k" by simp
    with inv [of p] len Some show ?thesis by (auto simp: parentCallNode_def)
  qed
  then obtain par where par: "parentCallNode ?idx (st ! k) = Some par" ..
  from addStack_step [OF fr par] obtain c ext where
    idx': "stackIndexToCallNodeIndex (addStack ft ?B (st ! k)) = ?idx @ [Some c]"
    and tbl': "callNodeTable (addStack ft ?B (st ! k)) = ?tbl @ ext"
    and fnd: "findCallNode (?tbl @ ext) par (frame.funcIndex (ft ! frameIndex (st ! k))) = Some c"
    by blast
  have "\<exists>c' par'. (?idx @ [Some c]) ! s = Some c'
          \<and> parentCallNode (?idx @ [Some c]) (st ! s) = Some par'
          \<and> findCallNode (?tbl @ ext) par' (frame.funcIndex (ft ! frameIndex (st ! s))) = Some c'"
    if s: "s < Suc k" for s
  proof (cases "s = k")
    case True
    with len fnd parentCallNode_append [OF par] show ?thesis by (simp add: nth_append)
  next
    case False
    with s have "s < k" by simp
    from inv [OF this] obtain c' par' where
      "?idx ! s = Some c'" "parentCallNode ?idx (st ! s) = Some par'"
      "findCallNode ?tbl par' (frame.funcIndex (ft ! frameIndex (st ! s))) = Some c'"
      by blast
    with \<open>s < k\<close> len show ?thesis
      by (simp add: nth_append parentCallNode_append findCallNode_append_Some)
  qed
  with len show ?case by (simp only: step idx' tbl') simp
qed

lemma stackFuncPath_unfold:
  assumes "stackTableOk st ft" and "s < length st"
  shows "stackFuncPath st ft s =
           (case parentStackIndex (st ! s) of None \<Rightarrow> [] | Some p \<Rightarrow> stackFuncPath st ft p)
           @ [frame.funcIndex (ft ! frameIndex (st ! s))]"
  using assms
  by (subst stackFuncPath.simps) (auto simp: stackTableOk_iff split: option.splits)

lemma stackFuncPath_nonempty:
  "stackTableOk st ft \<Longrightarrow> s < length st \<Longrightarrow> stackFuncPath st ft s \<noteq> []"
  by (simp add: stackFuncPath_unfold)

lemma same_path_same_callNode:
  assumes ok: "stackTableOk st ft"
      and len: "length idx = length st"
      and inv: "\<And>s. s < length st \<Longrightarrow> \<exists>c par. idx ! s = Some c
                  \<and> parentCallNode idx (st ! s) = Some par
                  \<and> findCallNode tbl par (frame.funcIndex (ft ! frameIndex (st ! s))) = Some c"
  shows "s1 < length st \<Longrightarrow> s2 < length st \<Longrightarrow>
         stackFuncPath st ft s1 = stackFuncPath st ft s2 \<Longrightarrow> idx ! s1 = idx ! s2"
proof (induction s1 arbitrary: s2 rule: less_induct)
  case (less s1)
  let ?pre = "\<lambda>s. case parentStackIndex (st ! s) of None \<Rightarrow> [] | Some p \<Rightarrow> stackFuncPath st ft p"
  let ?f = "\<lambda>s. frame.funcIndex (ft ! frameIndex (st ! s))"
  from less.prems have eq: "?pre s1 @ [?f s1] = ?pre s2 @ [?f s2]"
    by (simp add: stackFuncPath_unfold [OF ok])
  then have f: "?f s1 = ?f s2" and pre: "?pre s1 = ?pre s2" by simp_all
  have below: "p < s \<and> p < length st \<and> stackFuncPath st ft p \<noteq> []"
    if "s < length st" "parentStackIndex (st ! s) = Some p" for s p
  proof -
    from ok that have "p < s" by (simp add: stackTableOk_iff)
    with that(1) show ?thesis by (simp add: stackFuncPath_nonempty [OF ok])
  qed
  have par: "parentCallNode idx (st ! s1) = parentCallNode idx (st ! s2)"
  proof (cases "parentStackIndex (st ! s1)")
    case None
    with pre have "?pre s2 = []" by simp
    with below [OF less.prems(2)] have "parentStackIndex (st ! s2) = None"
      by (cases "parentStackIndex (st ! s2)") auto
    with None show ?thesis by (simp add: parentCallNode_def)
  next
    case (Some p1)
    from below [OF less.prems(1) Some] have p1: "p1 < s1" "p1 < length st"
      "stackFuncPath st ft p1 \<noteq> []" by simp_all
    with pre Some obtain p2 where p2: "parentStackIndex (st ! s2) = Some p2"
      by (cases "parentStackIndex (st ! s2)") auto
    from below [OF less.prems(2) p2] have p2': "p2 < length st" by simp
    from pre Some p2 have "stackFuncPath st ft p1 = stackFuncPath st ft p2" by simp
    from less.IH [OF p1(1) p1(2) p2' this] have "idx ! p1 = idx ! p2" .
    with Some p2 p1(2) p2' len show ?thesis by (simp add: parentCallNode_def)
  qed
  from inv [OF less.prems(1)] inv [OF less.prems(2)] par f show ?case by auto
qed


text \<open>
  C3. In a well-formed stack table, two stacks with the same root-to-leaf function path are
  mapped by the call-node table builder to the same call node (and both are mapped).
\<close>

theorem same_function_path_same_call_node:
  assumes "stackTableOk st ft"
      and "s1 < length st" and "s2 < length st"
      and "stackFuncPath st ft s1 = stackFuncPath st ft s2"
  shows "stackIndexToCallNodeIndex (ProfileData_getCallNodeInfo st ft fns dc) ! s1
           = stackIndexToCallNodeIndex (ProfileData_getCallNodeInfo st ft fns dc) ! s2
         \<and> stackIndexToCallNodeIndex (ProfileData_getCallNodeInfo st ft fns dc) ! s1 \<noteq> None"
proof -
  let ?info = "ProfileData_getCallNodeInfo st ft fns dc"
  from build_stack_inv [OF assms(1), of "length st"]
  have len: "length (stackIndexToCallNodeIndex ?info) = length st"
    and inv: "\<And>s. s < length st \<Longrightarrow> \<exists>c par. stackIndexToCallNodeIndex ?info ! s = Some c
        \<and> parentCallNode (stackIndexToCallNodeIndex ?info) (st ! s) = Some par
        \<and> findCallNode (callNodeTable ?info) par (frame.funcIndex (ft ! frameIndex (st ! s))) = Some c"
    by (simp_all add: ProfileData_getCallNodeInfo_def)
  have "stackIndexToCallNodeIndex ?info ! s1 = stackIndexToCallNodeIndex ?info ! s2"
    using same_path_same_callNode [OF assms(1) len inv assms(2) assms(3) assms(4)] by blast
  moreover from inv [OF assms(2)] have "stackIndexToCallNodeIndex ?info ! s1 \<noteq> None" by auto
  ultimately show ?thesis ..
qed

lemma exampleStackTable_ok: "stackTableOk exampleStackTable exampleFrameTable"
  by (simp add: stackTableOk_def exampleStackTable_def exampleFrameTable_def)

theorem same_function_path_same_call_node_witness:
  "stackTableOk exampleStackTable exampleFrameTable
   \<and> (1::nat) < length exampleStackTable \<and> (4::nat) < length exampleStackTable
   \<and> stackFuncPath exampleStackTable exampleFrameTable 1 = [0, 1]
   \<and> stackFuncPath exampleStackTable exampleFrameTable 4 = [0, 1]
   \<and> stackIndexToCallNodeIndex (ProfileData_getCallNodeInfo exampleStackTable exampleFrameTable [] 0) ! 1
       = stackIndexToCallNodeIndex (ProfileData_getCallNodeInfo exampleStackTable exampleFrameTable [] 0) ! 4
   \<and> stackIndexToCallNodeIndex (ProfileData_getCallNodeInfo exampleStackTable exampleFrameTable [] 0) ! 1
       \<noteq> None"
proof -
  have h1: "(1::nat) < length exampleStackTable" and h2: "(4::nat) < length exampleStackTable"
    by (simp_all add: exampleStackTable_def)
  have p1: "stackFuncPath exampleStackTable exampleFrameTable 1 = [0, 1]"
    by (simp add: stackFuncPath.simps exampleStackTable_def exampleFrameTable_def)
  have p4: "stackFuncPath exampleStackTable exampleFrameTable 4 = [0, 1]"
    by (simp add: stackFuncPath.simps exampleStackTable_def exampleFrameTable_def)
  have h3: "stackFuncPath exampleStackTable exampleFrameTable 1
              = stackFuncPath exampleStackTable exampleFrameTable 4"
    by (simp only: p1 p4)
  show ?thesis
    using exampleStackTable_ok h1 h2 p1 p4
      same_function_path_same_call_node [OF exampleStackTable_ok h1 h2 h3, of "[]" 0]
    by blast
qed

section \<open>Properties of the path resolver\<close>

lemma descend_append:
  "descend tbl cur xs = Some c \<Longrightarrow> descend tbl cur (xs @ ys) = descend tbl (Some c) ys"
  by (induction xs arbitrary: cur) (auto split: option.splits)

lemma getCallNodePathFromIndex_unfold:
  assumes "parentPrecedes tbl" and "n < length tbl"
  shows "getCallNodePathFromIndex n tbl =
           (case parentCallNodeIndex (tbl ! n) of
              None \<Rightarrow> [] | Some p \<Rightarrow> getCallNodePathFromIndex p tbl)
           @ [callNode.funcIndex (tbl ! n)]"
  using assms
  by (subst getCallNodePathFromIndex.simps) (auto simp: parentPrecedes_iff split: option.splits)

lemma path_round_trip:
  assumes ok: "callNodeTableOk tbl"
  shows "n < length tbl \<Longrightarrow> descend tbl None (getCallNodePathFromIndex n tbl) = Some n"
proof (induction n rule: less_induct)
  case (less n)
  from ok have pp: "parentPrecedes tbl" and d: "distinct (map callNodeKey tbl)"
    by (simp_all add: callNodeTableOk_def)
  note self = findCallNode_self [OF d less.prems]
  show ?case
  proof (cases "parentCallNodeIndex (tbl ! n)")
    case None
    with self show ?thesis
      by (simp add: getCallNodePathFromIndex_unfold [OF pp less.prems])
  next
    case (Some p)
    with pp less.prems have "p < n" by (simp add: parentPrecedes_iff)
    with less.prems have "descend tbl None (getCallNodePathFromIndex p tbl) = Some p"
      by (intro less.IH) simp_all
    from descend_append [OF this] self Some show ?thesis
      by (simp add: getCallNodePathFromIndex_unfold [OF pp less.prems])
  qed
qed

lemma descend_sound:
  assumes pp: "parentPrecedes tbl"
  shows "descend tbl cur fs = Some c \<Longrightarrow>
         (case cur of None \<Rightarrow> True | Some p \<Rightarrow> p < length tbl) \<Longrightarrow>
         c < length tbl
         \<and> getCallNodePathFromIndex c tbl =
             (case cur of None \<Rightarrow> [] | Some p \<Rightarrow> getCallNodePathFromIndex p tbl) @ fs"
proof (induction fs arbitrary: cur)
  case Nil
  then show ?case by (cases cur) simp_all
next
  case (Cons f fs)
  from Cons.prems(1) obtain d where d: "findCallNode tbl cur f = Some d"
    and rest: "descend tbl (Some d) fs = Some c"
    by (auto split: option.splits)
  from findCallNode_Some [OF d] have dl: "d < length tbl"
    and dp: "parentCallNodeIndex (tbl ! d) = cur" and df: "callNode.funcIndex (tbl ! d) = f"
    by simp_all
  have "getCallNodePathFromIndex d tbl =
          (case cur of None \<Rightarrow> [] | Some p \<Rightarrow> getCallNodePathFromIndex p tbl) @ [f]"
    by (simp add: getCallNodePathFromIndex_unfold [OF pp dl] dp df)
  with Cons.IH [OF rest] dl show ?case by simp
qed

lemma getCallNodeInfo_table_ok:
  "callNodeTableOk (callNodeTable (ProfileData_getCallNodeInfo st ft fns dc))"
  using getCallNodeInfo_ok [of st ft fns dc] by (simp add: callNodeInfoOk_def)

lemma example_callNodeInfo:
  "ProfileData_getCallNodeInfo exampleStackTable exampleFrameTable fns dc =
     \<lparr> callNodeTable =
         [\<lparr>callNode.funcIndex = 0, callNode.categoryIndex = 0, depth = 0, parentCallNodeIndex = None\<rparr>,
          \<lparr>callNode.funcIndex = 1, callNode.categoryIndex = 0, depth = 1, parentCallNodeIndex = Some 0\<rparr>,
          \<lparr>callNode.funcIndex = 2, callNode.categoryIndex = 0, depth = 1, parentCallNodeIndex = Some 0\<rparr>],
       stackIndexToCallNodeIndex = [Some 0, Some 1, Some 2, Some 0, Some 1] \<rparr>"
  by (simp add: ProfileData_getCallNodeInfo_def addStack_def parentCallNode_def findCallNode_def
      newCallNode_def exampleStackTable_def exampleFrameTable_def)

lemma example_callNodePaths:
  "callNodePaths (callNodeTable (ProfileData_getCallNodeInfo exampleStackTable exampleFrameTable fns dc))
     = [[0], [0, 1], [0, 2]]"
  by (simp add: example_callNodeInfo callNodePaths_def getCallNodePathFromIndex.simps upt_rec)

lemma example_getCallNodeInfo:
  "getFilteredThread s = exampleThread \<Longrightarrow>
     getCallNodeInfo s = ProfileData_getCallNodeInfo exampleStackTable exampleFrameTable
       (funcTable exampleThread) (getDefaultCategory s)"
  by (simp add: getCallNodeInfo_def exampleThread_def)

text \<open>
  C5. In a call-node table (parents precede children, no two nodes share parent and
  function), resolving the root-to-node function path of a call node returns that node.
  Every table the builder produces is such a table (\<open>getCallNodeInfo_table_ok\<close>).
\<close>

theorem call_node_path_round_trip:
  assumes "callNodeTableOk (callNodeTable info)" and "n < length (callNodeTable info)"
  shows "getSelectedCallNodeIndex_compute info (getCallNodePathFromIndex n (callNodeTable info))
           = Some n"
  using path_round_trip [OF assms]
  by (simp add: getSelectedCallNodeIndex_compute_def ProfileData_getCallNodeIndexFromPath_def)

theorem call_node_path_round_trip_witness:
  "callNodeTableOk (callNodeTable (ProfileData_getCallNodeInfo exampleStackTable exampleFrameTable [] 0))
   \<and> (2::nat) < length (callNodeTable (ProfileData_getCallNodeInfo exampleStackTable exampleFrameTable [] 0))
   \<and> getCallNodePathFromIndex 2
        (callNodeTable (ProfileData_getCallNodeInfo exampleStackTable exampleFrameTable [] 0)) = [0, 2]
   \<and> getSelectedCallNodeIndex_compute
        (ProfileData_getCallNodeInfo exampleStackTable exampleFrameTable [] 0) [0, 2] = Some 2"
proof -
  let ?info = "ProfileData_getCallNodeInfo exampleStackTable exampleFrameTable [] 0"
  have h1: "callNodeTableOk (callNodeTable ?info)"
    by (rule getCallNodeInfo_table_ok)
  have h2: "(2::nat) < length (callNodeTable ?info)"
    by (simp add: example_callNodeInfo)
  have h3: "getCallNodePathFromIndex 2 (callNodeTable ?info) = [0, 2]"
    by (simp add: example_callNodeInfo getCallNodePathFromIndex.simps)
  show ?thesis
    using h1 h2 h3 call_node_path_round_trip [OF h1 h2] by simp
qed


text \<open>
  C8. When the selected call-node path is the path of no call node of the current
  call-node table, \<^verbatim>\<open>getSelectedCallNodeIndex\<close> returns null; the accessor has no
  failing branch.
\<close>

theorem unresolved_path_no_selection:
  assumes "getSelectedCallNodePath s \<notin> set (callNodePaths (callNodeTable (getCallNodeInfo s)))"
  shows "getSelectedCallNodeIndex s = None"
proof (rule ccontr)
  let ?tbl = "callNodeTable (getCallNodeInfo s)"
  assume "getSelectedCallNodeIndex s \<noteq> None"
  then obtain c where c: "descend ?tbl None (getSelectedCallNodePath s) = Some c"
    by (auto simp: getSelectedCallNodeIndex_def getSelectedCallNodeIndex_compute_def
        ProfileData_getCallNodeIndexFromPath_def)
  have "parentPrecedes ?tbl"
    using getCallNodeInfo_table_ok by (simp add: getCallNodeInfo_def Let_def callNodeTableOk_def)
  from descend_sound [OF this c] have "c < length ?tbl"
    and "getCallNodePathFromIndex c ?tbl = getSelectedCallNodePath s" by simp_all
  then have "getSelectedCallNodePath s \<in> set (callNodePaths ?tbl)"
    by (force simp: callNodePaths_def)
  with assms show False by contradiction
qed

theorem unresolved_path_no_selection_witness:
  "getSelectedCallNodePath
      (exampleState\<lparr> getViewOptions := \<lparr> selectedCallNodePath = [0, 1, 2],
         rightClickedCallNodePath = None, expandedCallNodePaths = [] \<rparr> \<rparr>)
     \<notin> set (callNodePaths (callNodeTable (getCallNodeInfo
      (exampleState\<lparr> getViewOptions := \<lparr> selectedCallNodePath = [0, 1, 2],
         rightClickedCallNodePath = None, expandedCallNodePaths = [] \<rparr> \<rparr>))))
   \<and> getSelectedCallNodeIndex
      (exampleState\<lparr> getViewOptions := \<lparr> selectedCallNodePath = [0, 1, 2],
         rightClickedCallNodePath = None, expandedCallNodePaths = [] \<rparr> \<rparr>) = None"
proof -
  let ?s = "exampleState\<lparr> getViewOptions := \<lparr> selectedCallNodePath = [0, 1, 2],
         rightClickedCallNodePath = None, expandedCallNodePaths = [] \<rparr> \<rparr>"
  have f: "getFilteredThread ?s = exampleThread" by (simp add: exampleState_def)
  have t: "callNodeTable (getCallNodeInfo ?s) =
      callNodeTable (ProfileData_getCallNodeInfo exampleStackTable exampleFrameTable
        (funcTable exampleThread) (getDefaultCategory ?s))"
    by (simp only: example_getCallNodeInfo [OF f])
  have h: "getSelectedCallNodePath ?s \<notin> set (callNodePaths (callNodeTable (getCallNodeInfo ?s)))"
    unfolding t example_callNodePaths by (simp add: getSelectedCallNodePath_def)
  show ?thesis
    using h unresolved_path_no_selection [OF h] by blast
qed

section \<open>Properties of the call tree aggregator\<close>

lemma sum_list_update_distinct:
  fixes ws :: "real list"
  assumes "distinct xs" and "i < length ws"
  shows "sum_list (map (\<lambda>j. (ws[i := v]) ! j) xs) =
           sum_list (map (\<lambda>j. ws ! j) xs) + (if i \<in> set xs then v - ws ! i else 0)"
  using assms
proof (induction xs)
  case Nil
  show ?case by simp
next
  case (Cons x xs)
  then show ?case by (auto simp: nth_list_update)
qed

lemma sumOverRoots_addAt:
  assumes "i < length ws" and "length ws = length tbl"
  shows "sumOverRoots tbl (addAt i w ws) = sumOverRoots tbl ws + (if isRoot tbl i then w else 0)"
proof -
  have "distinct (filter (isRoot tbl) [0..<length tbl])" by simp
  from sum_list_update_distinct [OF this assms(1), of "ws ! i + w"] assms
  show ?thesis by (simp add: sumOverRoots_def addAt_def)
qed

lemma length_addAt: "length (addAt i w ws) = length ws"
  by (simp add: addAt_def)

lemma length_fold_addAt: "length (fold (\<lambda>c. addAt c w) chain ws) = length ws"
  by (induction chain arbitrary: ws) (simp_all add: length_addAt)

lemma sumOverRoots_fold:
  assumes "\<forall>c\<in>set chain. c < length tbl" and "length ws = length tbl"
  shows "sumOverRoots tbl (fold (\<lambda>c. addAt c w) chain ws) =
           sumOverRoots tbl ws + of_nat (length (filter (isRoot tbl) chain)) * w"
  using assms
proof (induction chain arbitrary: ws)
  case Nil
  show ?case by simp
next
  case (Cons c chain)
  from Cons.prems have c: "c < length ws" by simp
  have "sumOverRoots tbl (fold (\<lambda>c. addAt c w) chain (addAt c w ws)) =
          sumOverRoots tbl (addAt c w ws) + of_nat (length (filter (isRoot tbl) chain)) * w"
    using Cons.prems by (intro Cons.IH) (simp_all add: length_addAt)
  with sumOverRoots_addAt [OF c Cons.prems(2), of w] show ?case
    by (simp add: algebra_simps)
qed


lemma sumOverRoots_zero: "sumOverRoots tbl (replicate (length tbl) 0) = 0"
proof -
  have "sum_list (map f xs) = (0::real)" if "\<forall>x\<in>set xs. f x = 0" for f and xs :: "nat list"
    using that by (induction xs) simp_all
  then show ?thesis by (simp add: sumOverRoots_def)
qed

lemma attributeRow_fields:
  "treeNodes (attributeRow tree row) = treeNodes tree"
  "totalWeight (attributeRow tree (s, chain, w)) = fold (\<lambda>c. addAt c w) chain (totalWeight tree)"
  by (simp_all add: attributeRow_def split: prod.splits)

lemma foldl_attributeRow_nodes:
  "treeNodes (foldl attributeRow tree cs) = treeNodes tree"
  by (induction cs arbitrary: tree) (simp_all add: attributeRow_fields)

lemma rootTotalWeight_foldl:
  assumes "\<forall>x\<in>set cs. (\<forall>c\<in>set (fst (snd x)). c < length (treeNodes tree))
             \<and> length (filter (isRoot (treeNodes tree)) (fst (snd x))) = 1"
      and "length (totalWeight tree) = length (treeNodes tree)"
  shows "rootTotalWeight (foldl attributeRow tree cs) =
           rootTotalWeight tree + sum_list (map (\<lambda>x. snd (snd x)) cs)"
  using assms
proof (induction cs arbitrary: tree)
  case Nil
  show ?case by simp
next
  case (Cons x cs)
  obtain s chain w where x: "x = (s, chain, w)" by (cases x) auto
  let ?tree = "attributeRow tree x"
  from Cons.prems x have ch: "\<forall>c\<in>set chain. c < length (treeNodes tree)"
    and one: "length (filter (isRoot (treeNodes tree)) chain) = 1" by simp_all
  have step: "rootTotalWeight ?tree = rootTotalWeight tree + w"
    using sumOverRoots_fold [OF ch Cons.prems(2), of w] one
    by (simp add: rootTotalWeight_def attributeRow_fields x)
  have "rootTotalWeight (foldl attributeRow ?tree cs) =
          rootTotalWeight ?tree + sum_list (map (\<lambda>x. snd (snd x)) cs)"
    using Cons.prems
    by (intro Cons.IH) (simp_all add: attributeRow_fields x length_fold_addAt)
  with step x show ?case by simp
qed

lemma rootTotalWeight_aggregate:
  assumes "\<forall>x\<in>set cs. (\<forall>c\<in>set (fst (snd x)). c < length tbl)
             \<and> length (filter (isRoot tbl) (fst (snd x))) = 1"
  shows "rootTotalWeight (aggregate tbl cs) = sum_list (map (\<lambda>x. snd (snd x)) cs)"
proof -
  let ?init = "\<lparr> treeNodes = tbl,
         selfCount = replicate (length tbl) 0, selfWeight = replicate (length tbl) 0,
         totalCount = replicate (length tbl) 0, totalWeight = replicate (length tbl) 0 \<rparr>"
  have "rootTotalWeight (foldl attributeRow ?init cs) =
          rootTotalWeight ?init + sum_list (map (\<lambda>x. snd (snd x)) cs)"
    using assms by (intro rootTotalWeight_foldl) simp_all
  then show ?thesis
    by (simp add: aggregate_def rootTotalWeight_def sumOverRoots_zero)
qed

lemma nodeToRoot_unfold:
  assumes "parentPrecedes tbl" and "n < length tbl"
  shows "nodeToRoot tbl n =
           n # (case parentCallNodeIndex (tbl ! n) of None \<Rightarrow> [] | Some p \<Rightarrow> nodeToRoot tbl p)"
  using assms
  by (subst nodeToRoot.simps) (auto simp: parentPrecedes_iff split: option.splits)

lemma nodeToRoot_one_root:
  assumes pp: "parentPrecedes tbl"
  shows "n < length tbl \<Longrightarrow>
         (\<forall>c\<in>set (nodeToRoot tbl n). c < length tbl)
         \<and> length (filter (isRoot tbl) (nodeToRoot tbl n)) = 1"
proof (induction n rule: less_induct)
  case (less n)
  show ?case
  proof (cases "parentCallNodeIndex (tbl ! n)")
    case None
    with less.prems show ?thesis
      by (simp add: nodeToRoot_unfold [OF pp] isRoot_def)
  next
    case (Some p)
    with pp less.prems have "p < n" by (simp add: parentPrecedes_iff)
    with less.prems less.IH [of p] Some show ?thesis
      by (simp add: nodeToRoot_unfold [OF pp less.prems] isRoot_def)
  qed
qed

lemma rowCallNode_Some: "rowCallNode info stk = Some n \<Longrightarrow> n < length (callNodeTable info)"
  by (auto simp: rowCallNode_def split: option.splits if_splits)

lemma directContributions_good:
  assumes "parentPrecedes (callNodeTable info)"
  shows "\<forall>x\<in>set (directContributions info rows).
           (\<forall>c\<in>set (fst (snd x)). c < length (callNodeTable info))
           \<and> length (filter (isRoot (callNodeTable info)) (fst (snd x))) = 1"
proof
  fix x assume "x \<in> set (directContributions info rows)"
  then obtain stk w n where "rowCallNode info stk = Some n"
    and x: "x = (n, nodeToRoot (callNodeTable info) n, w)"
    by (auto simp: directContributions_def split: option.splits)
  then have "n < length (callNodeTable info)" by (simp add: rowCallNode_Some)
  from nodeToRoot_one_root [OF assms this] x
  show "(\<forall>c\<in>set (fst (snd x)). c < length (callNodeTable info))
           \<and> length (filter (isRoot (callNodeTable info)) (fst (snd x))) = 1"
    by simp
qed

lemma directContributions_weight:
  "sum_list (map (\<lambda>x. snd (snd x)) (directContributions info rows)) = resolvableWeight info rows"
  by (induction rows) (auto simp: directContributions_def resolvableWeight_def split: option.splits)


lemma isChain_append: "isChain tbl cur cs \<Longrightarrow> isChain (tbl @ ext) cur cs"
  by (induction cs arbitrary: cur) (auto simp: nth_append)

lemma insertPath_chain:
  "insertPath tbl cur path = (tbl', chain) \<Longrightarrow>
     (\<exists>ext. tbl' = tbl @ ext) \<and> isChain tbl' cur chain \<and> length chain = length path"
proof (induction path arbitrary: tbl cur tbl' chain)
  case Nil
  then show ?case by simp
next
  case (Cons fc fs)
  obtain f category where fc: "fc = (f, category)" by (cases fc) auto
  show ?case
  proof (cases "findCallNode tbl cur f")
    case (Some c)
    with Cons.prems fc obtain ch where r: "insertPath tbl (Some c) fs = (tbl', ch)"
      and chain: "chain = c # ch"
      by (auto split: prod.splits)
    from Cons.IH [OF r] obtain ext where ext: "tbl' = tbl @ ext"
      and ic: "isChain tbl' (Some c) ch" and len: "length ch = length fs" by blast
    from findCallNode_Some [OF Some] ext have "c < length tbl'"
      and "parentCallNodeIndex (tbl' ! c) = cur" by (simp_all add: nth_append)
    with ext ic len chain show ?thesis by auto
  next
    case None
    let ?t1 = "tbl @ [newCallNode tbl cur f category]"
    from None Cons.prems fc obtain ch where r: "insertPath ?t1 (Some (length tbl)) fs = (tbl', ch)"
      and chain: "chain = length tbl # ch"
      by (auto split: prod.splits)
    from Cons.IH [OF r] obtain ext where ext: "tbl' = ?t1 @ ext"
      and ic: "isChain tbl' (Some (length tbl)) ch" and len: "length ch = length fs" by blast
    from ext have "length tbl < length tbl'"
      and "parentCallNodeIndex (tbl' ! length tbl) = cur"
      by (simp_all add: nth_append newCallNode_def)
    moreover from ext have "\<exists>e. tbl' = tbl @ e" by simp
    ultimately show ?thesis using ic len chain by auto
  qed
qed

lemma isChain_bound: "isChain tbl cur cs \<Longrightarrow> \<forall>c\<in>set cs. c < length tbl"
  by (induction cs arbitrary: cur) auto

lemma isChain_no_root: "isChain tbl (Some p) cs \<Longrightarrow> filter (isRoot tbl) cs = []"
  by (induction cs arbitrary: p) (auto simp: isRoot_def)

lemma isChain_one_root:
  "isChain tbl None cs \<Longrightarrow> cs \<noteq> [] \<Longrightarrow> length (filter (isRoot tbl) cs) = 1"
  by (cases cs) (auto simp: isRoot_def isChain_no_root)

lemma leafToRoot_nonempty: "n < length tbl \<Longrightarrow> leafToRoot tbl n \<noteq> []"
  by (subst leafToRoot_def, subst nodeToRoot.simps) simp

lemma reRootRow_None:
  "rowCallNode info stk = None \<Longrightarrow> reRootRow info (tbl, cs) (stk, w) = (tbl, cs)"
  by (simp add: reRootRow_def)

lemma reRootRow_Some:
  "rowCallNode info stk = Some n \<Longrightarrow>
   insertPath tbl None (leafToRoot (callNodeTable info) n) = (t1, chain) \<Longrightarrow>
   reRootRow info (tbl, cs) (stk, w) = (t1, cs @ [(hd chain, chain, w)])"
  by (simp add: reRootRow_def)

lemma reRoot_inv:
  assumes "foldl (reRootRow info) (tbl, cs) rows = (tbl', cs')"
      and "\<forall>x\<in>set cs. isChain tbl None (fst (snd x)) \<and> fst (snd x) \<noteq> []"
  shows "(\<forall>x\<in>set cs'. isChain tbl' None (fst (snd x)) \<and> fst (snd x) \<noteq> [])
         \<and> sum_list (map (\<lambda>x. snd (snd x)) cs') =
             sum_list (map (\<lambda>x. snd (snd x)) cs) + resolvableWeight info rows"
  using assms
proof (induction rows arbitrary: tbl cs)
  case Nil
  then show ?case by (simp add: resolvableWeight_def)
next
  case (Cons row rows)
  obtain stk w where row: "row = (stk, w)" by (cases row) auto
  show ?case
  proof (cases "rowCallNode info stk")
    case None
    with Cons.prems row have "foldl (reRootRow info) (tbl, cs) rows = (tbl', cs')"
      by (simp add: reRootRow_None)
    from Cons.IH [OF this Cons.prems(2)] None row show ?thesis
      by (simp add: resolvableWeight_def)
  next
    case (Some n)
    obtain t1 chain where ins: "insertPath tbl None (leafToRoot (callNodeTable info) n) = (t1, chain)"
      by (cases "insertPath tbl None (leafToRoot (callNodeTable info) n)") auto
    from insertPath_chain [OF ins] obtain ext where ext: "t1 = tbl @ ext"
      and ic: "isChain t1 None chain"
      and len: "length chain = length (leafToRoot (callNodeTable info) n)" by blast
    from leafToRoot_nonempty [OF rowCallNode_Some [OF Some]] len have ne: "chain \<noteq> []" by auto
    have step: "foldl (reRootRow info) (t1, cs @ [(hd chain, chain, w)]) rows = (tbl', cs')"
      using Cons.prems(1) row by (simp add: reRootRow_Some [OF Some ins])
    have "\<forall>x\<in>set (cs @ [(hd chain, chain, w)]). isChain t1 None (fst (snd x)) \<and> fst (snd x) \<noteq> []"
      using Cons.prems(2) ic ne ext by (auto simp: isChain_append)
    from Cons.IH [OF step this] Some row show ?thesis
      by (simp add: resolvableWeight_def)
  qed
qed

lemma reRoot_good:
  assumes "reRoot info rows = (tbl, cs)"
  shows "(\<forall>x\<in>set cs. (\<forall>c\<in>set (fst (snd x)). c < length tbl)
            \<and> length (filter (isRoot tbl) (fst (snd x))) = 1)
         \<and> sum_list (map (\<lambda>x. snd (snd x)) cs) = resolvableWeight info rows"
proof -
  from assms have "foldl (reRootRow info) ([], []) rows = (tbl, cs)" by (simp add: reRoot_def)
  from reRoot_inv [OF this] have inv: "\<forall>x\<in>set cs. isChain tbl None (fst (snd x)) \<and> fst (snd x) \<noteq> []"
    and w: "sum_list (map (\<lambda>x. snd (snd x)) cs) = resolvableWeight info rows" by simp_all
  from inv have "\<forall>x\<in>set cs. (\<forall>c\<in>set (fst (snd x)). c < length tbl)
            \<and> length (filter (isRoot tbl) (fst (snd x))) = 1"
    using isChain_bound isChain_one_root by blast
  with w show ?thesis by simp
qed

text \<open>
  C4. For every row stream, sampling interval and invert flag, the total weights of the
  root call nodes of the aggregated tree add up to the weights of the rows whose stack
  resolves to a call node of the table; the other rows contribute nothing.
\<close>

theorem root_total_weight_conservation:
  assumes "callNodeTableOk (callNodeTable info)"
  shows "rootTotalWeight (computeCallTreeCountsAndTimings rows info interval invertCallstack)
           = resolvableWeight info (weightedRows interval rows)"
proof (cases invertCallstack)
  case True
  obtain tbl cs where r: "reRoot info (weightedRows interval rows) = (tbl, cs)"
    by (cases "reRoot info (weightedRows interval rows)") auto
  from reRoot_good [OF r] rootTotalWeight_aggregate [of cs tbl] True r show ?thesis
    by (simp add: computeCallTreeCountsAndTimings_def)
next
  case False
  from assms have pp: "parentPrecedes (callNodeTable info)" by (simp add: callNodeTableOk_def)
  from rootTotalWeight_aggregate [OF directContributions_good [OF pp]] False show ?thesis
    by (simp add: computeCallTreeCountsAndTimings_def directContributions_weight)
qed


theorem root_total_weight_conservation_witness:
  "callNodeTableOk (callNodeTable (ProfileData_getCallNodeInfo exampleStackTable exampleFrameTable [] 0))
   \<and> resolvableWeight (ProfileData_getCallNodeInfo exampleStackTable exampleFrameTable [] 0)
        (weightedRows 1 (Samples \<lparr> samplesTable.stack = [Some 1, None, Some 4, Some 9, Some 2],
                                   samplesTable.time = [0, 1, 2, 3, 4] \<rparr>)) = 3
   \<and> rootTotalWeight (computeCallTreeCountsAndTimings
        (Samples \<lparr> samplesTable.stack = [Some 1, None, Some 4, Some 9, Some 2],
                   samplesTable.time = [0, 1, 2, 3, 4] \<rparr>)
        (ProfileData_getCallNodeInfo exampleStackTable exampleFrameTable [] 0) 1 False) = 3
   \<and> rootTotalWeight (computeCallTreeCountsAndTimings
        (Samples \<lparr> samplesTable.stack = [Some 1, None, Some 4, Some 9, Some 2],
                   samplesTable.time = [0, 1, 2, 3, 4] \<rparr>)
        (ProfileData_getCallNodeInfo exampleStackTable exampleFrameTable [] 0) 1 True) = 3"
proof -
  let ?info = "ProfileData_getCallNodeInfo exampleStackTable exampleFrameTable [] 0"
  let ?rows = "Samples \<lparr> samplesTable.stack = [Some 1, None, Some 4, Some 9, Some 2],
                         samplesTable.time = [0, 1, 2, 3, 4] \<rparr>"
  have h: "callNodeTableOk (callNodeTable ?info)"
    by (rule getCallNodeInfo_table_ok)
  have w: "resolvableWeight ?info (weightedRows 1 ?rows) = 3"
    by (simp add: example_callNodeInfo resolvableWeight_def weightedRows_def rowCallNode_def)
  show ?thesis
    using h w root_total_weight_conservation [OF h, of ?rows 1 False]
      root_total_weight_conservation [OF h, of ?rows 1 True]
    by simp
qed

section \<open>Properties of the derivation graph\<close>

lemma dependencies_earlier: "Sel y \<in> set (dependencies x) \<Longrightarrow> position y < position x"
  by (cases x) auto

lemma evaluate_hit:
  "memoized x \<Longrightarrow> cache m x = Some (ins, out) \<Longrightarrow> evaluate P x ins m = (Inr out, m)"
  by (simp add: evaluate_def)

lemma evaluate_plain:
  "\<not> memoized x \<Longrightarrow> evaluate P x ins m = (Inr (plainFn P x ins), m)"
  by (simp add: evaluate_def)

lemma read_hit:
  "valueOf P a (cache m) x = Some r \<Longrightarrow> read P a x m = (Inr r, m)"
  "valuesOf P a (cache m) x ds = Some ins \<Longrightarrow> readDeps P a x ds m = (Inr ins, m)"
proof (induction P a x m and P a x ds m arbitrary: r and ins rule: read_readDeps.induct)
  case (1 P a x m)
  from "1.prems" obtain ins where ins: "valuesOf P a (cache m) x (dependencies x) = Some ins"
    by (subst (asm) valueOf.simps) (auto split: option.splits)
  from "1.IH" [OF ins] have deps: "readDeps P a x (dependencies x) m = (Inr ins, m)" .
  from "1.prems" ins have "evaluate P x ins m = (Inr r, m)"
    by (subst (asm) valueOf.simps)
       (auto simp: evaluate_hit evaluate_plain split: option.splits if_splits)
  with deps show ?case by (simp add: read.simps)
next
  case (2 P a x m)
  then show ?case by (simp add: valuesOf.simps readDeps.simps)
next
  case (3 P a x u ds m)
  from "3.prems" obtain ins' where "valuesOf P a (cache m) x ds = Some ins'" "ins = a u # ins'"
    by (auto simp: valuesOf.simps split: option.splits)
  with "3.IH" [of ins'] show ?case by (simp add: readDeps.simps)
next
  case (4 P a x y ds m)
  from "4.prems" obtain v ins' where lt: "position y < position x"
    and v: "valueOf P a (cache m) y = Some v"
    and ins': "valuesOf P a (cache m) x ds = Some ins'" and ins: "ins = v # ins'"
    by (auto simp: valuesOf.simps split: option.splits if_splits)
  from "4.IH"(1) [OF lt v] have ry: "read P a y m = (Inr v, m)" .
  from "4.IH"(2) [OF lt ry [symmetric] _ ins'] have "readDeps P a x ds m = (Inr ins', m)"
    by simp
  with lt ry ins show ?case by (simp add: readDeps.simps)
qed


lemma value_frame:
  assumes agree: "\<forall>z. valueOf P a c z \<noteq> None \<longrightarrow> c' z = c z"
  shows "valueOf P a c x = Some v \<Longrightarrow> valueOf P a c' x = Some v"
    and "valuesOf P a c x ds = Some ins \<Longrightarrow> valuesOf P a c' x ds = Some ins"
  using agree
proof (induction P a c x and P a c x ds arbitrary: v and ins rule: valueOf_valuesOf.induct)
  case (1 P a c x)
  from "1.prems"(1) obtain ins where ins: "valuesOf P a c x (dependencies x) = Some ins"
    by (subst (asm) valueOf.simps) (auto split: option.splits)
  from "1.IH" [OF ins "1.prems"(2)] have ins': "valuesOf P a c' x (dependencies x) = Some ins" .
  from "1.prems" have e: "c' x = c x" by auto
  have "valueOf P a c' x = valueOf P a c x"
    by (simp add: valueOf.simps [of P a c x] valueOf.simps [of P a c' x] ins ins' e)
  with "1.prems"(1) show ?case by simp
next
  case (2 P a c x)
  then show ?case by (simp add: valuesOf.simps)
next
  case (3 P a c x u ds)
  from "3.prems"(1) obtain ins' where "valuesOf P a c x ds = Some ins'" "ins = a u # ins'"
    by (auto simp: valuesOf.simps split: option.splits)
  with "3.IH" [of ins'] "3.prems"(2) show ?case by (simp add: valuesOf.simps)
next
  case (4 P a c x y ds)
  from "4.prems"(1) obtain v ins' where lt: "position y < position x"
    and v: "valueOf P a c y = Some v"
    and ins': "valuesOf P a c x ds = Some ins'" and ins: "ins = v # ins'"
    by (auto simp: valuesOf.simps split: option.splits if_splits)
  from "4.IH"(1) [OF lt v "4.prems"(2)] "4.IH"(2) [OF lt v ins' "4.prems"(2)] lt ins
  show ?case by (simp add: valuesOf.simps)
qed

lemma value_below:
  "(\<forall>z. position z \<le> position x \<longrightarrow> c' z = c z) \<Longrightarrow> valueOf P a c' x = valueOf P a c x"
  "(\<forall>z. position z < position x \<longrightarrow> c' z = c z) \<Longrightarrow> valuesOf P a c' x ds = valuesOf P a c x ds"
proof (induction P a c x and P a c x ds rule: valueOf_valuesOf.induct)
  case (1 P a c x)
  then have d: "valuesOf P a c' x (dependencies x) = valuesOf P a c x (dependencies x)"
    and e: "c' x = c x" by auto
  show ?case
    by (simp add: valueOf.simps [of P a c x] valueOf.simps [of P a c' x] d e
        cong: option.case_cong if_cong)
next
  case (2 P a c x)
  show ?case by (simp add: valuesOf.simps)
next
  case (3 P a c x u ds)
  then show ?case by (simp add: valuesOf.simps)
next
  case (4 P a c x y ds)
  show ?case
  proof (cases "position y < position x")
    case True
    with "4.prems" have "\<forall>z. position z \<le> position y \<longrightarrow> c' z = c z" by auto
    from "4.IH"(1) [OF True this] have y: "valueOf P a c' y = valueOf P a c y" .
    show ?thesis
    proof (cases "valueOf P a c y")
      case None
      with y True show ?thesis by (simp add: valuesOf.simps)
    next
      case (Some v)
      from "4.IH"(2) [OF True Some "4.prems"] y Some True show ?thesis
        by (simp add: valuesOf.simps)
    qed
  next
    case False
    then show ?thesis by (simp add: valuesOf.simps)
  qed
qed

lemma evaluate_above:
  "evaluate P x ins m = (res, m') \<Longrightarrow> z \<noteq> x \<Longrightarrow>
     cache m' z = cache m z \<and> computed m' z = computed m z"
  by (auto simp: evaluate_def split: if_splits option.splits sum.splits)

lemma read_above:
  "read P a x m = (res, m') \<Longrightarrow> position x < position z \<Longrightarrow>
     cache m' z = cache m z \<and> computed m' z = computed m z"
  "readDeps P a x ds m = (res', m') \<Longrightarrow> position x \<le> position z \<Longrightarrow>
     cache m' z = cache m z \<and> computed m' z = computed m z"
proof (induction P a x m and P a x ds m arbitrary: res m' and res' m' rule: read_readDeps.induct)
  case (1 P a x m)
  obtain rd m1 where rd: "readDeps P a x (dependencies x) m = (rd, m1)"
    by (cases "readDeps P a x (dependencies x) m") auto
  from "1.IH" [OF rd] "1.prems"(2)
  have m1: "cache m1 z = cache m z \<and> computed m1 z = computed m z" by simp
  show ?case
  proof (cases rd)
    case (Inl e)
    with rd "1.prems"(1) m1 show ?thesis by (simp add: read.simps)
  next
    case (Inr ins)
    with rd "1.prems"(1) have "evaluate P x ins m1 = (res, m')" by (simp add: read.simps)
    from evaluate_above [OF this, of z] "1.prems"(2) m1 show ?thesis by auto
  qed
next
  case (2 P a x m)
  then show ?case by (simp add: readDeps.simps)
next
  case (3 P a x u ds m)
  obtain rd m1 where rd: "readDeps P a x ds m = (rd, m1)"
    by (cases "readDeps P a x ds m") auto
  with "3.prems"(1) have "m' = m1" by (cases rd) (simp_all add: readDeps.simps)
  with "3.IH" [OF rd "3.prems"(2)] show ?case by simp
next
  case (4 P a x y ds m)
  show ?case
  proof (cases "position y < position x")
    case False
    with "4.prems"(1) show ?thesis by (simp add: readDeps.simps)
  next
    case lt: True
    obtain ry m1 where ry: "read P a y m = (ry, m1)" by (cases "read P a y m") auto
    from "4.IH"(1) [OF lt ry] lt "4.prems"(2)
    have m1: "cache m1 z = cache m z \<and> computed m1 z = computed m z" by simp
    show ?thesis
    proof (cases ry)
      case (Inl e)
      with ry lt "4.prems"(1) m1 show ?thesis by (simp add: readDeps.simps)
    next
      case (Inr v)
      obtain rd m2 where rd: "readDeps P a x ds m1 = (rd, m2)"
        by (cases "readDeps P a x ds m1") auto
      from "4.IH"(2) [OF lt ry [symmetric, unfolded Inr] _ rd "4.prems"(2)]
      have m2: "cache m2 z = cache m1 z \<and> computed m2 z = computed m1 z" by simp
      from rd ry Inr lt "4.prems"(1) have "m' = m2"
        by (cases rd) (simp_all add: readDeps.simps)
      with m1 m2 show ?thesis by simp
    qed
  qed
qed


lemma keepsSettled_refl: "keepsSettled P a m m"
  by (simp add: keepsSettled_def)

lemma recomputedSettled_refl: "recomputedSettled P a m m"
  by (simp add: recomputedSettled_def)

lemma settled_mono:
  assumes "keepsSettled P a m m'"
  shows "valueOf P a (cache m) z = Some v \<Longrightarrow> valueOf P a (cache m') z = Some v"
    and "valuesOf P a (cache m) x ds = Some ins \<Longrightarrow> valuesOf P a (cache m') x ds = Some ins"
proof -
  from assms have agree: "\<forall>z. valueOf P a (cache m) z \<noteq> None \<longrightarrow> cache m' z = cache m z"
    by (simp add: keepsSettled_def)
  show "valueOf P a (cache m) z = Some v \<Longrightarrow> valueOf P a (cache m') z = Some v"
    by (rule value_frame(1) [OF agree])
  show "valuesOf P a (cache m) x ds = Some ins \<Longrightarrow> valuesOf P a (cache m') x ds = Some ins"
    by (rule value_frame(2) [OF agree])
qed

lemma keepsSettled_trans:
  assumes k1: "keepsSettled P a m m1" and r1: "recomputedSettled P a m m1"
      and k2: "keepsSettled P a m1 m2"
  shows "keepsSettled P a m m2"
proof -
  have "cache m2 z = cache m z \<and> computed m2 z = computed m z"
    if z: "valueOf P a (cache m) z \<noteq> None" for z
  proof -
    from z obtain v where v: "valueOf P a (cache m) z = Some v" by auto
    from settled_mono(1) [OF k1 v] have "valueOf P a (cache m1) z \<noteq> None" by simp
    with k2 have "cache m2 z = cache m1 z \<and> computed m2 z = computed m1 z"
      by (simp add: keepsSettled_def)
    moreover from k1 z have "cache m1 z = cache m z \<and> computed m1 z = computed m z"
      by (simp add: keepsSettled_def)
    ultimately show ?thesis by simp
  qed
  moreover have "computed m2 z \<le> computed m z + 1" for z
  proof (cases "computed m1 z = computed m z")
    case True
    from k2 have "computed m2 z \<le> computed m1 z + 1" by (simp add: keepsSettled_def)
    with True show ?thesis by simp
  next
    case False
    with r1 have "valueOf P a (cache m1) z \<noteq> None" by (simp add: recomputedSettled_def)
    with k2 have "computed m2 z = computed m1 z" by (simp add: keepsSettled_def)
    with k1 show ?thesis by (simp add: keepsSettled_def)
  qed
  ultimately show ?thesis by (simp add: keepsSettled_def)
qed

lemma recomputedSettled_trans:
  assumes r1: "recomputedSettled P a m m1" and r2: "recomputedSettled P a m1 m2"
      and k2: "keepsSettled P a m1 m2"
  shows "recomputedSettled P a m m2"
proof -
  have "valueOf P a (cache m2) z \<noteq> None" if z: "computed m2 z \<noteq> computed m z" for z
  proof (cases "computed m2 z = computed m1 z")
    case True
    with z r1 obtain v where "valueOf P a (cache m1) z = Some v"
      by (auto simp: recomputedSettled_def)
    from settled_mono(1) [OF k2 this] show ?thesis by simp
  next
    case False
    with r2 show ?thesis by (simp add: recomputedSettled_def)
  qed
  then show ?thesis by (simp add: recomputedSettled_def)
qed

lemma evaluate_settles:
  assumes ins: "valuesOf P a (cache m1) x (dependencies x) = Some ins"
      and ev: "evaluate P x ins m1 = (res, m')"
  shows "keepsSettled P a m1 m'
         \<and> (\<forall>r. res = Inr r \<longrightarrow> valueOf P a (cache m') x = Some r \<and> recomputedSettled P a m1 m')"
proof (cases "valueOf P a (cache m1) x")
  case (Some r)
  with ins ev have "res = Inr r" "m' = m1"
    by (auto simp: valueOf.simps [of P a "cache m1" x] evaluate_def
        split: option.splits if_splits)
  with Some show ?thesis by (simp add: keepsSettled_refl recomputedSettled_refl)
next
  case None
  with ins have memo: "memoized x"
    and miss: "\<forall>out. cache m1 x \<noteq> Some (ins, out)"
    by (auto simp: valueOf.simps [of P a "cache m1" x] split: option.splits if_splits)
  show ?thesis
  proof (cases "resultFn P x ins (nextRef m1)")
    case (Inl e)
    with ev memo miss have res: "res = Inl e"
      and m': "m' = m1\<lparr> computed := (computed m1)(x := computed m1 x + 1) \<rparr>"
      by (auto simp: evaluate_def split: option.splits if_splits)
    from None m' have "keepsSettled P a m1 m'" by (auto simp: keepsSettled_def)
    with res show ?thesis by simp
  next
    case (Inr out)
    with ev memo miss have res: "res = Inr out"
      and m': "m' = \<lparr> cache = (cache m1)(x \<mapsto> (ins, out)), nextRef = Suc (nextRef m1),
                      computed = (computed m1)(x := computed m1 x + 1) \<rparr>"
      by (auto simp: evaluate_def split: option.splits if_splits)
    from None m' have k: "keepsSettled P a m1 m'" by (auto simp: keepsSettled_def)
    from m' have "\<forall>z. position z < position x \<longrightarrow> cache m' z = cache m1 z" by auto
    from value_below(2) [OF this] ins
    have vs: "valuesOf P a (cache m') x (dependencies x) = Some ins" by simp
    from m' have c: "cache m' x = Some (ins, out)" by simp
    have v: "valueOf P a (cache m') x = Some out"
      by (simp add: valueOf.simps [of P a "cache m'" x] vs memo c)
    with m' have "recomputedSettled P a m1 m'" by (auto simp: recomputedSettled_def)
    with k v res show ?thesis by simp
  qed
qed

lemma read_settles:
  "read P a x m = (res, m') \<Longrightarrow>
     keepsSettled P a m m'
     \<and> (\<forall>r. res = Inr r \<longrightarrow> valueOf P a (cache m') x = Some r \<and> recomputedSettled P a m m')"
  "readDeps P a x ds m = (res', m') \<Longrightarrow>
     keepsSettled P a m m'
     \<and> (\<forall>ins. res' = Inr ins \<longrightarrow>
           valuesOf P a (cache m') x ds = Some ins \<and> recomputedSettled P a m m')"
proof (induction P a x m and P a x ds m arbitrary: res m' and res' m' rule: read_readDeps.induct)
  case (1 P a x m)
  obtain rd m1 where rd: "readDeps P a x (dependencies x) m = (rd, m1)"
    by (cases "readDeps P a x (dependencies x) m") auto
  note ih = "1.IH" [OF rd]
  show ?case
  proof (cases rd)
    case (Inl e)
    with rd "1.prems" ih show ?thesis by (auto simp: read.simps)
  next
    case (Inr ins)
    with ih have k1: "keepsSettled P a m m1" and r1: "recomputedSettled P a m m1"
      and v: "valuesOf P a (cache m1) x (dependencies x) = Some ins" by simp_all
    from Inr rd "1.prems" have ev: "evaluate P x ins m1 = (res, m')" by (simp add: read.simps)
    note es = evaluate_settles [OF v ev]
    from es have k2: "keepsSettled P a m1 m'" by simp
    from keepsSettled_trans [OF k1 r1 k2] es recomputedSettled_trans [OF r1 _ k2]
    show ?thesis by auto
  qed
next
  case (2 P a x m)
  then show ?case
    by (auto simp: readDeps.simps valuesOf.simps keepsSettled_refl recomputedSettled_refl)
next
  case (3 P a x u ds m)
  obtain rd m1 where rd: "readDeps P a x ds m = (rd, m1)"
    by (cases "readDeps P a x ds m") auto
  note ih = "3.IH" [OF rd]
  from rd "3.prems" ih show ?case
    by (cases rd) (auto simp: readDeps.simps valuesOf.simps)
next
  case (4 P a x y ds m)
  show ?case
  proof (cases "position y < position x")
    case False
    with "4.prems" show ?thesis by (auto simp: readDeps.simps keepsSettled_refl)
  next
    case lt: True
    obtain ry m1 where ry: "read P a y m = (ry, m1)" by (cases "read P a y m") auto
    note ih1 = "4.IH"(1) [OF lt ry]
    show ?thesis
    proof (cases ry)
      case (Inl e)
      with ry lt "4.prems" ih1 show ?thesis by (auto simp: readDeps.simps)
    next
      case (Inr v)
      with ih1 have k1: "keepsSettled P a m m1" and r1: "recomputedSettled P a m m1"
        and vy: "valueOf P a (cache m1) y = Some v" by simp_all
      obtain rd m2 where rd: "readDeps P a x ds m1 = (rd, m2)"
        by (cases "readDeps P a x ds m1") auto
      note ih2 = "4.IH"(2) [OF lt ry [symmetric, unfolded Inr] _ rd, simplified]
      from ih2 have k2: "keepsSettled P a m1 m2" by simp
      note k = keepsSettled_trans [OF k1 r1 k2]
      show ?thesis
      proof (cases rd)
        case (Inl e)
        with rd ry Inr lt "4.prems" k show ?thesis by (auto simp: readDeps.simps)
      next
        case ins: (Inr ins)
        with ih2 have r2: "recomputedSettled P a m1 m2"
          and vs: "valuesOf P a (cache m2) x ds = Some ins" by simp_all
        from settled_mono(1) [OF k2 vy] have "valueOf P a (cache m2) y = Some v" .
        with vs lt have "valuesOf P a (cache m2) x (Sel y # ds) = Some (v # ins)"
          by (simp add: valuesOf.simps)
        with ins rd ry Inr lt "4.prems" k recomputedSettled_trans [OF r1 r2 k2]
        show ?thesis by (auto simp: readDeps.simps)
      qed
    qed
  qed
qed


lemma evaluate_returns:
  assumes "\<forall>y ins n. \<exists>r. resultFn P y ins n = Inr r"
  shows "\<exists>r m'. evaluate P x ins m = (Inr r, m')"
proof -
  from assms obtain r where "resultFn P x ins (nextRef m) = Inr r" by blast
  then show ?thesis by (auto simp: evaluate_def split: option.splits)
qed

lemma read_returns:
  assumes total: "\<forall>y ins n. \<exists>r. resultFn P y ins n = Inr r"
  shows "\<exists>r m'. read P a x m = (Inr r, m')"
    and "(\<forall>y. Sel y \<in> set ds \<longrightarrow> position y < position x) \<Longrightarrow>
         \<exists>ins m'. readDeps P a x ds m = (Inr ins, m')"
  using total
proof (induction P a x m and P a x ds m rule: read_readDeps.induct)
  case (1 P a x m)
  have "\<forall>y. Sel y \<in> set (dependencies x) \<longrightarrow> position y < position x"
    by (simp add: dependencies_earlier)
  from "1.IH" [OF this "1.prems"] obtain ins m1
    where "readDeps P a x (dependencies x) m = (Inr ins, m1)" by blast
  with evaluate_returns [OF "1.prems", of x ins m1] show ?case by (auto simp: read.simps)
next
  case (2 P a x m)
  show ?case by (simp add: readDeps.simps)
next
  case (3 P a x u ds m)
  from "3.IH" "3.prems" obtain ins m1 where "readDeps P a x ds m = (Inr ins, m1)" by auto
  then show ?case by (simp add: readDeps.simps)
next
  case (4 P a x y ds m)
  from "4.prems" have lt: "position y < position x" by simp
  from "4.IH"(1) [OF lt "4.prems"(2)] obtain v m1 where ry: "read P a y m = (Inr v, m1)" by blast
  from "4.IH"(2) [OF lt ry [symmetric] _ _ "4.prems"(2)] "4.prems"(1)
  obtain ins m2 where "readDeps P a x ds m1 = (Inr ins, m2)" by auto
  with lt ry show ?case by (simp add: readDeps.simps)
qed

text \<open>
  C6. Whenever a read of a selector returns a reference, the next read in the same ambient
  state returns the same reference and leaves the memo as it is: no result function is
  called and nothing is allocated. A read in any ambient state calls each result function
  at most once. For a memoized selector, a read in a new ambient state calls its result
  function exactly once when the identities of its inputs differ from the recorded ones,
  and not at all when they are the same. This holds for every selector of the graph, so
  for every exposed accessor; \<open>read_returns\<close> shows that a read returns whenever the
  result functions do.
\<close>

theorem reads_return_cached_reference:
  assumes first: "read P a x m = (Inr r, m1)"
  shows "read P a x m1 = (Inr r, m1)
         \<and> (\<forall>a' res m2. read P a' x m1 = (res, m2) \<longrightarrow>
               (\<forall>y. computed m2 y \<le> computed m1 y + 1))
         \<and> (memoized x \<longrightarrow>
              (\<exists>ins1. cache m1 x = Some (ins1, r)
                 \<and> valuesOf P a (cache m1) x (dependencies x) = Some ins1
                 \<and> (\<forall>a' r' m2. read P a' x m1 = (Inr r', m2) \<longrightarrow>
                      (\<exists>ins2. cache m2 x = Some (ins2, r')
                         \<and> valuesOf P a' (cache m2) x (dependencies x) = Some ins2
                         \<and> computed m2 x = computed m1 x + (if ins2 = ins1 then 0 else 1)
                         \<and> (ins2 = ins1 \<longrightarrow> r' = r)))))"
proof (intro conjI impI allI)
  from read_settles(1) [OF first] have v: "valueOf P a (cache m1) x = Some r" by simp
  from read_hit(1) [OF v] show "read P a x m1 = (Inr r, m1)" .
  show "computed m2 y \<le> computed m1 y + 1" if "read P a' x m1 = (res, m2)" for a' res m2 y
    using read_settles(1) [OF that] by (simp add: keepsSettled_def)
  show "\<exists>ins1. cache m1 x = Some (ins1, r)
          \<and> valuesOf P a (cache m1) x (dependencies x) = Some ins1
          \<and> (\<forall>a' r' m2. read P a' x m1 = (Inr r', m2) \<longrightarrow>
               (\<exists>ins2. cache m2 x = Some (ins2, r')
                  \<and> valuesOf P a' (cache m2) x (dependencies x) = Some ins2
                  \<and> computed m2 x = computed m1 x + (if ins2 = ins1 then 0 else 1)
                  \<and> (ins2 = ins1 \<longrightarrow> r' = r)))"
    if memo: "memoized x"
  proof -
    from v memo obtain ins1 where vs1: "valuesOf P a (cache m1) x (dependencies x) = Some ins1"
      and c1: "cache m1 x = Some (ins1, r)"
      by (auto simp: valueOf.simps [of P a "cache m1" x] split: option.splits if_splits)
    have "\<exists>ins2. cache m2 x = Some (ins2, r')
            \<and> valuesOf P a' (cache m2) x (dependencies x) = Some ins2
            \<and> computed m2 x = computed m1 x + (if ins2 = ins1 then 0 else 1)
            \<and> (ins2 = ins1 \<longrightarrow> r' = r)"
      if second: "read P a' x m1 = (Inr r', m2)" for a' r' m2
    proof -
      obtain rd m' where rd: "readDeps P a' x (dependencies x) m1 = (rd, m')"
        by (cases "readDeps P a' x (dependencies x) m1") auto
      with second obtain ins2 where ins2: "rd = Inr ins2"
        and ev: "evaluate P x ins2 m' = (Inr r', m2)"
        by (cases rd) (auto simp: read.simps)
      from read_above(2) [OF rd, of x] c1
      have c': "cache m' x = Some (ins1, r)" and n': "computed m' x = computed m1 x" by simp_all
      from read_settles(2) [OF rd] ins2
      have vs': "valuesOf P a' (cache m') x (dependencies x) = Some ins2" by simp
      show ?thesis
      proof (cases "ins2 = ins1")
        case True
        with ev memo c' have "r' = r" "m2 = m'" by (simp_all add: evaluate_def)
        with True c' n' vs' show ?thesis by auto
      next
        case False
        with ev memo c' have c2: "cache m2 x = Some (ins2, r')"
          and n2: "computed m2 x = computed m' x + 1"
          by (auto simp: evaluate_def split: sum.splits)
        from read_settles(1) [OF second] have "valueOf P a' (cache m2) x = Some r'" by simp
        with memo c2 have "valuesOf P a' (cache m2) x (dependencies x) = Some ins2"
          by (auto simp: valueOf.simps [of P a' "cache m2" x] split: option.splits if_splits)
        with c2 n2 n' False show ?thesis by auto
      qed
    qed
    with vs1 c1 show ?thesis by blast
  qed
qed


lemma example_first_read:
  "read allocating exampleAmbient GetSelectedCallNodeIndex emptyMemo = (Inr 102, settledMemo)"
  by (simp add: read.simps readDeps.simps evaluate_def memoized_def emptyMemo_def
      allocating_def exampleAmbient_def settledMemo_def)

lemma example_changed_read:
  "read allocating (exampleAmbient(GetViewOptions := 8)) GetSelectedCallNodeIndex settledMemo
     = (Inr 104, resettledMemo)"
  by (simp add: read.simps readDeps.simps evaluate_def memoized_def
      allocating_def exampleAmbient_def settledMemo_def resettledMemo_def fun_eq_iff)

theorem reads_return_cached_reference_witness:
  "read allocating exampleAmbient GetSelectedCallNodeIndex emptyMemo = (Inr 102, settledMemo)
   \<and> read allocating exampleAmbient GetSelectedCallNodeIndex settledMemo = (Inr 102, settledMemo)
   \<and> memoized GetSelectedCallNodeIndex
   \<and> read allocating (exampleAmbient(GetViewOptions := 8)) GetSelectedCallNodeIndex settledMemo
       = (Inr 104, resettledMemo)
   \<and> computed resettledMemo GetSelectedCallNodeIndex
       = computed settledMemo GetSelectedCallNodeIndex + 1
   \<and> (\<forall>y. computed resettledMemo y \<le> computed settledMemo y + 1)"
proof -
  note t = reads_return_cached_reference [OF example_first_read]
  have m: "memoized GetSelectedCallNodeIndex" by (simp add: memoized_def)
  from t have again: "read allocating exampleAmbient GetSelectedCallNodeIndex settledMemo
      = (Inr 102, settledMemo)" by blast
  from t example_changed_read have le: "\<forall>y. computed resettledMemo y \<le> computed settledMemo y + 1"
    by blast
  from t m obtain ins1 where c1: "cache settledMemo GetSelectedCallNodeIndex = Some (ins1, 102)"
    and rest: "\<forall>a' r' m2. read allocating a' GetSelectedCallNodeIndex settledMemo = (Inr r', m2) \<longrightarrow>
        (\<exists>ins2. cache m2 GetSelectedCallNodeIndex = Some (ins2, r')
           \<and> valuesOf allocating a' (cache m2) GetSelectedCallNodeIndex
               (dependencies GetSelectedCallNodeIndex) = Some ins2
           \<and> computed m2 GetSelectedCallNodeIndex
               = computed settledMemo GetSelectedCallNodeIndex + (if ins2 = ins1 then 0 else 1)
           \<and> (ins2 = ins1 \<longrightarrow> r' = 102))"
    by blast
  from rest example_changed_read obtain ins2 where
    c2: "cache resettledMemo GetSelectedCallNodeIndex = Some (ins2, 104)"
    and n: "computed resettledMemo GetSelectedCallNodeIndex
              = computed settledMemo GetSelectedCallNodeIndex + (if ins2 = ins1 then 0 else 1)"
    by blast
  from c1 have "ins1 = [100, 101]" by (simp add: settledMemo_def)
  moreover from c2 have "ins2 = [100, 103]" by (simp add: resettledMemo_def)
  ultimately have "computed resettledMemo GetSelectedCallNodeIndex
      = computed settledMemo GetSelectedCallNodeIndex + 1" using n by simp
  with example_first_read again m example_changed_read le show ?thesis by blast
qed

end
